theory Spec2Isabelle
  imports Main "HOL-Library.Word"
begin

unbundle bit_operations_syntax

section \<open>Arithmetic primitives and byte order\<close>

text \<open>
  A shallow embedding of \<^verbatim>\<open>Pak.h\<close>. The header is generic over the C++ types it
  serialises; the embedding replaces the template parameters by explicit data: the host
  byte order (what \<^verbatim>\<open>endianTest\<close> observes), the arithmetic type of a primitive
  (its width and whether \<^verbatim>\<open>std::is_integral\<close> holds) and the bit pattern it holds.
\<close>

type_synonym byte = "8 word"

datatype host = LittleEndian | BigEndian

text \<open>
  The arithmetic types by width. \<open>TInt\<close>\<^emph>\<open>n\<close> stands for every integral type of
  \<^emph>\<open>n\<close> bits (signed or unsigned, \<^verbatim>\<open>bool\<close> and the character types included);
  the value is kept as its two's-complement bit pattern. \<open>TFloat32\<close> and \<open>TFloat64\<close>
  are \<^verbatim>\<open>float\<close> and \<^verbatim>\<open>double\<close>, kept as their IEEE754 bit patterns.
\<close>

datatype pty = TInt8 | TInt16 | TInt32 | TInt64 | TFloat32 | TFloat64

datatype prim =
    Int8 "8 word"
  | Int16 "16 word"
  | Int32 "32 word"
  | Int64 "64 word"
  | Float32 "32 word"
  | Float64 "64 word"

fun pty_of :: "prim \<Rightarrow> pty" where
  "pty_of (Int8 w) = TInt8"
| "pty_of (Int16 w) = TInt16"
| "pty_of (Int32 w) = TInt32"
| "pty_of (Int64 w) = TInt64"
| "pty_of (Float32 w) = TFloat32"
| "pty_of (Float64 w) = TFloat64"

fun sizeof :: "pty \<Rightarrow> nat" where
  "sizeof TInt8 = 1"
| "sizeof TInt16 = 2"
| "sizeof TInt32 = 4"
| "sizeof TInt64 = 8"
| "sizeof TFloat32 = 4"
| "sizeof TFloat64 = 8"

fun is_integral :: "pty \<Rightarrow> bool" where
  "is_integral TFloat32 = False"
| "is_integral TFloat64 = False"
| "is_integral t = True"

subsection \<open>Object representation\<close>

text \<open>The bytes of a word, least significant first, and back.\<close>

fun le_bytes :: "nat \<Rightarrow> 'a::len word \<Rightarrow> byte list" where
  "le_bytes 0 w = []"
| "le_bytes (Suc n) w = ucast w # le_bytes n (drop_bit 8 w)"

fun of_le_bytes :: "byte list \<Rightarrow> 'a::len word" where
  "of_le_bytes [] = 0"
| "of_le_bytes (b # bs) = ucast b OR push_bit 8 (of_le_bytes bs)"

fun value_bytes :: "prim \<Rightarrow> byte list" where
  "value_bytes (Int8 w) = le_bytes 1 w"
| "value_bytes (Int16 w) = le_bytes 2 w"
| "value_bytes (Int32 w) = le_bytes 4 w"
| "value_bytes (Int64 w) = le_bytes 8 w"
| "value_bytes (Float32 w) = le_bytes 4 w"
| "value_bytes (Float64 w) = le_bytes 8 w"

fun value_of_bytes :: "pty \<Rightarrow> byte list \<Rightarrow> prim" where
  "value_of_bytes TInt8 bs = Int8 (of_le_bytes bs)"
| "value_of_bytes TInt16 bs = Int16 (of_le_bytes bs)"
| "value_of_bytes TInt32 bs = Int32 (of_le_bytes bs)"
| "value_of_bytes TInt64 bs = Int64 (of_le_bytes bs)"
| "value_of_bytes TFloat32 bs = Float32 (of_le_bytes bs)"
| "value_of_bytes TFloat64 bs = Float64 (of_le_bytes bs)"

text \<open>
  What \<^verbatim>\<open>reinterpret_cast<T*>\<close> and \<^verbatim>\<open>memcpy\<close> see: the bytes of an object in
  host memory, lowest address first.
\<close>

definition object_bytes :: "host \<Rightarrow> prim \<Rightarrow> byte list" where
  "object_bytes h x =
     (case h of LittleEndian \<Rightarrow> value_bytes x | BigEndian \<Rightarrow> rev (value_bytes x))"

definition object_of_bytes :: "host \<Rightarrow> pty \<Rightarrow> byte list \<Rightarrow> prim" where
  "object_of_bytes h t bs =
     (case h of LittleEndian \<Rightarrow> value_of_bytes t bs | BigEndian \<Rightarrow> value_of_bytes t (rev bs))"

text \<open>
  \<^verbatim>\<open>int endianTest = 1; bool isBigEndian = (*(std::uint8_t*)&endianTest == 0);\<close>
\<close>

definition isBigEndian :: "host \<Rightarrow> bool" where
  "isBigEndian h = (let endianTest = Int32 1 in hd (object_bytes h endianTest) = 0)"

text \<open>
  \<^verbatim>\<open>shouldByteSwap<T>()\<close>: the first overload (multi-byte integral types) returns
  \<^verbatim>\<open>isBigEndian\<close>; the second (single-byte or non-integral types) returns false.
\<close>

definition shouldByteSwap :: "host \<Rightarrow> pty \<Rightarrow> bool" where
  "shouldByteSwap h t =
     (if 1 < sizeof t \<and> is_integral t then isBigEndian h else False)"

text \<open>
  The compiler intrinsics \<^verbatim>\<open>__builtin_bswap16/32/64\<close> (and the
  \<^verbatim>\<open>_byteswap_\<close> family) as the usual shifts and masks.
\<close>

definition bswap16 :: "16 word \<Rightarrow> 16 word" where
  "bswap16 x = push_bit 8 x OR drop_bit 8 x"

definition bswap32 :: "32 word \<Rightarrow> 32 word" where
  "bswap32 x = push_bit 24 x OR push_bit 8 (x AND 0xFF00)
                OR (drop_bit 8 x AND 0xFF00) OR drop_bit 24 x"

definition bswap64 :: "64 word \<Rightarrow> 64 word" where
  "bswap64 x = push_bit 56 x OR push_bit 40 (x AND 0xFF00)
     OR push_bit 24 (x AND 0xFF0000) OR push_bit 8 (x AND 0xFF000000)
     OR (drop_bit 8 x AND 0xFF000000) OR (drop_bit 24 x AND 0xFF0000)
     OR (drop_bit 40 x AND 0xFF00) OR drop_bit 56 x"

text \<open>
  \<^verbatim>\<open>byteSwap\<close> as overload resolution selects it where an intrinsic is available:
  the three \<^verbatim>\<open>enable_integral<T, 2|4|8>\<close> templates, and the variadic
  \<^verbatim>\<open>void byteSwap(...) { }\<close> for every other type.
\<close>

fun byteSwap :: "prim \<Rightarrow> prim" where
  "byteSwap (Int16 w) = Int16 (bswap16 w)"
| "byteSwap (Int32 w) = Int32 (bswap32 w)"
| "byteSwap (Int64 w) = Int64 (bswap64 w)"
| "byteSwap x = x"

text \<open>
  The portable \<^verbatim>\<open>byteSwap\<close> of the \<^verbatim>\<open>#else\<close> branch works on the object's
  bytes: \<^verbatim>\<open>begin\<close> and \<^verbatim>\<open>end\<close> are indices into them, and the loop
  \<^verbatim>\<open>while(begin < end) std::swap(*begin++, *end--)\<close> is the recursion.
\<close>

function byteSwap_loop :: "nat \<Rightarrow> nat \<Rightarrow> byte list \<Rightarrow> byte list" where
  "byteSwap_loop b e bs =
     (if b < e then byteSwap_loop (b + 1) (e - 1) (bs[b := bs ! e, e := bs ! b]) else bs)"
  by pat_completeness auto
termination
  by (relation "measure (\<lambda>(b, e, bs). e - b)") auto

definition byteSwap_portable :: "byte list \<Rightarrow> byte list" where
  "byteSwap_portable bs = byteSwap_loop 0 (length bs - 1) bs"

section \<open>The byte buffer\<close>

text \<open>
  The private members of \<^verbatim>\<open>class Pak\<close>. \<^verbatim>\<open>std::size_t\<close> is modelled by
  \<open>nat\<close>: the three counters are bounded by the size of the buffer in memory.
\<close>

record pak =
  bytes :: "byte list"
  reserveSize :: nat
  writePosition :: nat
  readPosition :: nat

definition Pak :: pak where
  "Pak = \<lparr>bytes = [], reserveSize = 0, writePosition = 0, readPosition = 0\<rparr>"

text \<open>
  The source does not check its cursors against the buffer: an access past the end of
  \<^verbatim>\<open>bytes\<close> is undefined behaviour. The model stops there with \<open>BoundsViolation\<close>.
  A copy of zero bytes touches no memory. A \<^verbatim>\<open>memcpy\<close> that runs past the end of the
  block holding the first element of a \<^verbatim>\<open>std::deque\<close> is undefined behaviour as well
  (on the machine it moves the bytes that lie behind the block, not the elements); the
  model stops there with \<open>BlockOverrun\<close>.
\<close>

datatype error = BoundsViolation | BlockOverrun

definition store :: "nat \<Rightarrow> byte list \<Rightarrow> byte list \<Rightarrow> error + byte list" where
  "store pos src buf =
     (if src = [] then Inr buf
      else if pos + length src \<le> length buf
           then Inr (take pos buf @ src @ drop (pos + length src) buf)
      else Inl BoundsViolation)"

definition load :: "nat \<Rightarrow> nat \<Rightarrow> byte list \<Rightarrow> error + byte list" where
  "load pos n buf =
     (if n = 0 then Inr []
      else if pos + n \<le> length buf then Inr (take n (drop pos buf))
      else Inl BoundsViolation)"

datatype phase = Reserve | Write | Read

subsection \<open>Primitive\<close>

text \<open>\<^verbatim>\<open>copyPrimitive(T& dst, T src)\<close>; the result is the new \<^verbatim>\<open>dst\<close>.\<close>

definition copyPrimitive :: "host \<Rightarrow> prim \<Rightarrow> prim" where
  "copyPrimitive h src =
     (let dst = src in if shouldByteSwap h (pty_of dst) then byteSwap dst else dst)"

text \<open>
  The three \<^verbatim>\<open>parse\<close> overloads for \<^verbatim>\<open>std::is_arithmetic\<close> types. In the Read
  phase the argument is the destination and the result its new value.
\<close>

fun parse_prim :: "host \<Rightarrow> phase \<Rightarrow> prim \<Rightarrow> pak \<Rightarrow> error + (prim \<times> pak)" where
  "parse_prim h Reserve t p =
     Inr (t, p\<lparr>reserveSize := reserveSize p + sizeof (pty_of t)\<rparr>)"
| "parse_prim h Write t p =
     (case store (writePosition p) (object_bytes h (copyPrimitive h t)) (bytes p) of
        Inl e \<Rightarrow> Inl e
      | Inr b \<Rightarrow>
          Inr (t, p\<lparr>bytes := b, writePosition := writePosition p + sizeof (pty_of t)\<rparr>))"
| "parse_prim h Read t p =
     (case load (readPosition p) (sizeof (pty_of t)) (bytes p) of
        Inl e \<Rightarrow> Inl e
      | Inr src \<Rightarrow>
          Inr (copyPrimitive h (object_of_bytes h (pty_of t) src),
               p\<lparr>readPosition := readPosition p + sizeof (pty_of t)\<rparr>))"

text \<open>\<^verbatim>\<open>read<std::uint32_t>()\<close>, as the container overloads call it.\<close>

fun uint32_of :: "prim \<Rightarrow> 32 word" where
  "uint32_of (Int32 w) = w"
| "uint32_of x = 0"

definition read_uint32 :: "host \<Rightarrow> pak \<Rightarrow> error + (32 word \<times> pak)" where
  "read_uint32 h p =
     (case parse_prim h Read (Int32 0) p of
        Inl e \<Rightarrow> Inl e
      | Inr (t, p') \<Rightarrow> Inr (uint32_of t, p'))"

subsection \<open>Contiguous range optimization\<close>

lemma sizeof_pos: "0 < sizeof t"
  by (cases t) auto

text \<open>
  The loop \<^verbatim>\<open>while(current < end) byteSwap(*current++)\<close> of
  \<^verbatim>\<open>copyPrimitiveArray\<close>, over the bytes of the destination: each element is
  read as a \<^verbatim>\<open>T\<close>, swapped and stored back.
\<close>

function byteSwap_elements :: "host \<Rightarrow> pty \<Rightarrow> byte list \<Rightarrow> byte list" where
  "byteSwap_elements h t bs =
     (if bs = [] then []
      else object_bytes h (byteSwap (object_of_bytes h t (take (sizeof t) bs)))
           @ byteSwap_elements h t (drop (sizeof t) bs))"
  by pat_completeness auto
termination
  by (relation "measure (\<lambda>(h, t, bs). length bs)") (auto simp: sizeof_pos)

text \<open>
  \<^verbatim>\<open>copyPrimitiveArray(dst, src, numBytes)\<close>: \<open>src\<close> are the \<^verbatim>\<open>numBytes\<close>
  bytes at the source, the result the bytes at the destination afterwards.
\<close>

definition copyPrimitiveArray :: "host \<Rightarrow> pty \<Rightarrow> byte list \<Rightarrow> byte list" where
  "copyPrimitiveArray h t src =
     (if 0 < length src
      then (let dst = src in if shouldByteSwap h t then byteSwap_elements h t dst else dst)
      else [])"

text \<open>The elements of type \<open>t\<close> that a run of bytes in host memory holds.\<close>

function objects_of_bytes :: "host \<Rightarrow> pty \<Rightarrow> byte list \<Rightarrow> prim list" where
  "objects_of_bytes h t bs =
     (if bs = [] then []
      else object_of_bytes h t (take (sizeof t) bs) # objects_of_bytes h t (drop (sizeof t) bs))"
  by pat_completeness auto
termination
  by (relation "measure (\<lambda>(h, t, bs). length bs)") (auto simp: sizeof_pos)

text \<open>
  The three \<^verbatim>\<open>enable_if_contiguous_range\<close> overloads of \<^verbatim>\<open>parse\<close>, on a range
  of elements of the arithmetic type \<open>t\<close>.
\<close>

fun parse_contiguous :: "host \<Rightarrow> phase \<Rightarrow> pty \<Rightarrow> prim list \<Rightarrow> pak \<Rightarrow> error + (prim list \<times> pak)" where
  "parse_contiguous h Reserve t ps p =
     Inr (ps, p\<lparr>reserveSize := reserveSize p + length ps * sizeof t\<rparr>)"
| "parse_contiguous h Write t ps p =
     (let numBytes = length ps * sizeof t in
      case store (writePosition p)
             (copyPrimitiveArray h t (take numBytes (concat (map (object_bytes h) ps))))
             (bytes p) of
        Inl e \<Rightarrow> Inl e
      | Inr b \<Rightarrow> Inr (ps, p\<lparr>bytes := b, writePosition := writePosition p + numBytes\<rparr>))"
| "parse_contiguous h Read t ps p =
     (let numBytes = length ps * sizeof t in
      case load (readPosition p) numBytes (bytes p) of
        Inl e \<Rightarrow> Inl e
      | Inr src \<Rightarrow>
          Inr (objects_of_bytes h t (copyPrimitiveArray h t src),
               p\<lparr>readPosition := readPosition p + numBytes\<rparr>))"

section \<open>Values and their C++ types\<close>

text \<open>
  The classification the traits and overloads of the header make: arithmetic types,
  \<^verbatim>\<open>std::pair\<close>, raw arrays \<^verbatim>\<open>T[S]\<close>, \<^verbatim>\<open>std::array\<close>, containers
  (\<^verbatim>\<open>is_container\<close>, with the category of their iterators), maps (\<^verbatim>\<open>is_map\<close>)
  and user-defined types with a \<^verbatim>\<open>serialize\<close> hook. A hook is taken to forward the
  object's fields, in order, to the operation it is given. A container value carries its
  element type, which \<^verbatim>\<open>resize\<close> and \<^verbatim>\<open>read<value_type>()\<close> need to construct
  fresh elements; the entries of a map are its \<^verbatim>\<open>std::pair\<close> elements in iteration
  order, and a map carries the order of its keys. A raw array reaches
  \<^verbatim>\<open>parse(op, begin, end)\<close> with lvalue pointers, for which the contiguous overloads
  are not enabled, and is visited element by element.

  The iterators of a container and the memory behind them:
  \<^item> \<open>RandomAccess\<close>: \<^verbatim>\<open>std::vector\<close>, \<^verbatim>\<open>std::string\<close> and \<^verbatim>\<open>std::array\<close>;
    category \<^verbatim>\<open>random_access_iterator_tag\<close>, the elements lie contiguously in memory.
  \<^item> \<open>Segmented room\<close>: \<^verbatim>\<open>std::deque\<close>; category
    \<^verbatim>\<open>random_access_iterator_tag\<close> as well, but the elements lie in separate blocks.
    \<open>room\<close> is the number of element slots from the first element to the end of the
    block that holds it: of \<open>n\<close> elements only the first \<open>min n room\<close> are contiguous
    at \<^verbatim>\<open>&(*begin)\<close>. A deque built by \<^verbatim>\<open>push_back(2); push_front(1)\<close> has room 1.
    \<^verbatim>\<open>resize\<close> works at the back and leaves \<open>room\<close> as it is; a type records the
    layout of its objects.
  \<^item> \<open>Bidirectional\<close>: \<^verbatim>\<open>std::list\<close> and \<^verbatim>\<open>std::map\<close>; any category other than
    random access.
\<close>

datatype iter_cat = RandomAccess | Segmented nat | Bidirectional

text \<open>
  A map is a \<^verbatim>\<open>std::map\<close>. The strict order of its keys (its \<^verbatim>\<open>Compare\<close>,
  \<^verbatim>\<open>std::less<Key>\<close>) is one of: the comparison of integers as signed or as unsigned
  values, the comparison of pairs and of user-defined objects field by field, and the
  lexicographical comparison of the elements of a sequence.
\<close>

datatype key_order =
    SignedLess
  | UnsignedLess
  | FieldsLess "key_order list"
  | ElementsLess key_order

datatype ty =
    TPrim pty
  | TPair ty ty
  | TRawArray nat ty
  | TStdArray nat ty
  | TSeq iter_cat ty
  | TMap key_order ty ty
  | TUser "ty list"

datatype val =
    VPrim prim
  | VPair val val
  | VRawArray "val list"
  | VStdArray ty "val list"
  | VSeq iter_cat ty "val list"
  | VMap key_order ty ty "val list"
  | VUser "val list"

text \<open>Value-initialisation \<^verbatim>\<open>T()\<close>.\<close>

fun default_prim :: "pty \<Rightarrow> prim" where
  "default_prim TInt8 = Int8 0"
| "default_prim TInt16 = Int16 0"
| "default_prim TInt32 = Int32 0"
| "default_prim TInt64 = Int64 0"
| "default_prim TFloat32 = Float32 0"
| "default_prim TFloat64 = Float64 0"

fun default_val :: "ty \<Rightarrow> val" where
  "default_val (TPrim t) = VPrim (default_prim t)"
| "default_val (TPair a b) = VPair (default_val a) (default_val b)"
| "default_val (TRawArray n t) = VRawArray (replicate n (default_val t))"
| "default_val (TStdArray n t) = VStdArray t (replicate n (default_val t))"
| "default_val (TSeq c t) = VSeq c t []"
| "default_val (TMap ord k v) = VMap ord k v []"
| "default_val (TUser ts) = VUser (map default_val ts)"

text \<open>\<^verbatim>\<open>std::vector::resize(n)\<close>.\<close>

definition resize :: "nat \<Rightarrow> 'a \<Rightarrow> 'a list \<Rightarrow> 'a list" where
  "resize n d xs = take n xs @ replicate (n - length xs) d"

text \<open>
  The comparison of two keys in a given order. \<open>SignedLess\<close> and \<open>UnsignedLess\<close>
  compare the bit patterns of two primitives as signed and as unsigned integers, which
  is \<^verbatim>\<open>operator<\<close> on the signed and on the unsigned integer types. A pair, and a
  user-defined type that compares its fields in order, is less by its first field that
  differs; a sequence is less by \<^verbatim>\<open>std::lexicographical_compare\<close>.
\<close>

fun signed_value :: "prim \<Rightarrow> int" where
  "signed_value (Int8 w) = sint w"
| "signed_value (Int16 w) = sint w"
| "signed_value (Int32 w) = sint w"
| "signed_value (Int64 w) = sint w"
| "signed_value (Float32 w) = sint w"
| "signed_value (Float64 w) = sint w"

fun unsigned_value :: "prim \<Rightarrow> int" where
  "unsigned_value (Int8 w) = uint w"
| "unsigned_value (Int16 w) = uint w"
| "unsigned_value (Int32 w) = uint w"
| "unsigned_value (Int64 w) = uint w"
| "unsigned_value (Float32 w) = uint w"
| "unsigned_value (Float64 w) = uint w"

fun fields_of :: "val \<Rightarrow> val list" where
  "fields_of (VPair a b) = [a, b]"
| "fields_of (VUser fs) = fs"
| "fields_of v = []"

fun elements_of :: "val \<Rightarrow> val list" where
  "elements_of (VRawArray xs) = xs"
| "elements_of (VStdArray t xs) = xs"
| "elements_of (VSeq c t xs) = xs"
| "elements_of (VMap ord k v es) = es"
| "elements_of v = []"

fun key_less :: "key_order \<Rightarrow> val \<Rightarrow> val \<Rightarrow> bool"
  and fields_less :: "key_order list \<Rightarrow> val list \<Rightarrow> val list \<Rightarrow> bool"
  and elements_less :: "key_order \<Rightarrow> val list \<Rightarrow> val list \<Rightarrow> bool"
where
  "key_less SignedLess (VPrim a) (VPrim b) = (signed_value a < signed_value b)"
| "key_less UnsignedLess (VPrim a) (VPrim b) = (unsigned_value a < unsigned_value b)"
| "key_less (FieldsLess ords) a b = fields_less ords (fields_of a) (fields_of b)"
| "key_less (ElementsLess ord) a b = elements_less ord (elements_of a) (elements_of b)"
| "key_less ord a b = False"
| "fields_less (ord # ords) (x # xs) (y # ys) =
     (key_less ord x y \<or> (\<not> key_less ord y x \<and> fields_less ords xs ys))"
| "fields_less ords xs ys = False"
| "elements_less ord (x # xs) (y # ys) =
     (key_less ord x y \<or> (\<not> key_less ord y x \<and> elements_less ord xs ys))"
| "elements_less ord [] (y # ys) = True"
| "elements_less ord xs [] = False"

text \<open>
  \<^verbatim>\<open>t.insert(t.end(), e)\<close> on a \<^verbatim>\<open>std::map\<close>, whose entries are kept in the order of
  their keys: \<^verbatim>\<open>end()\<close> is only a hint. An entry whose key is equivalent to a key of
  the map is dropped; any other entry is placed by its key, behind the entries with
  smaller keys.
\<close>

fun key_of :: "val \<Rightarrow> val" where
  "key_of (VPair k v) = k"
| "key_of e = e"

definition equivalent_keys :: "key_order \<Rightarrow> val \<Rightarrow> val \<Rightarrow> bool" where
  "equivalent_keys ord a b = (\<not> key_less ord a b \<and> \<not> key_less ord b a)"

definition map_insert :: "key_order \<Rightarrow> val list \<Rightarrow> val \<Rightarrow> val list" where
  "map_insert ord es e =
     (if list_ex (\<lambda>x. equivalent_keys ord (key_of x) (key_of e)) es then es
      else takeWhile (\<lambda>x. key_less ord (key_of x) (key_of e)) es
           @ e # dropWhile (\<lambda>x. key_less ord (key_of x) (key_of e)) es)"

text \<open>
  \<^verbatim>\<open>enable_if_contiguous_range\<close>: an iterator of category
  \<^verbatim>\<open>random_access_iterator_tag\<close> whose \<^verbatim>\<open>value_type\<close> is arithmetic. The trait does
  not ask whether the elements lie contiguously in memory, so the iterators of a
  \<^verbatim>\<open>std::deque\<close> pass it too. The result holds the element type and the elements of
  the range.
\<close>

fun the_prims :: "pty \<Rightarrow> val list \<Rightarrow> prim list option" where
  "the_prims t [] = Some []"
| "the_prims t (VPrim x # vs) =
     (if pty_of x = t then map_option ((#) x) (the_prims t vs) else None)"
| "the_prims t (v # vs) = None"

fun contiguous_range :: "iter_cat \<Rightarrow> ty \<Rightarrow> val list \<Rightarrow> (pty \<times> prim list) option" where
  "contiguous_range RandomAccess (TPrim t) vs = map_option (Pair t) (the_prims t vs)"
| "contiguous_range (Segmented room) (TPrim t) vs = map_option (Pair t) (the_prims t vs)"
| "contiguous_range c t vs = None"

text \<open>
  The contiguous overloads of the Write and Read phases hand \<^verbatim>\<open>&(*begin)\<close> and the
  byte count of the whole range to \<^verbatim>\<open>memcpy\<close>. Over a deque with more elements than
  \<open>room\<close> the copy runs past the end of the first block. The Reserve overload computes
  with the iterators only.
\<close>

fun block_overrun :: "iter_cat \<Rightarrow> phase \<Rightarrow> nat \<Rightarrow> bool" where
  "block_overrun (Segmented room) Reserve n = False"
| "block_overrun (Segmented room) op n = (room < n)"
| "block_overrun c op n = False"

section \<open>The traversal\<close>

text \<open>Measures for the termination of \<open>parse\<close>.\<close>

fun max_list :: "nat list \<Rightarrow> nat" where
  "max_list [] = 0"
| "max_list (n # ns) = max n (max_list ns)"

fun type_height :: "ty \<Rightarrow> nat" where
  "type_height (TPrim t) = 0"
| "type_height (TPair a b) = Suc (max (type_height a) (type_height b))"
| "type_height (TRawArray n t) = Suc (type_height t)"
| "type_height (TStdArray n t) = Suc (type_height t)"
| "type_height (TSeq c t) = Suc (type_height t)"
| "type_height (TMap ord k v) = Suc (Suc (max (type_height k) (type_height v)))"
| "type_height (TUser ts) = Suc (max_list (map type_height ts))"

fun height :: "val \<Rightarrow> nat" where
  "height (VPrim x) = 0"
| "height (VPair a b) = Suc (max (height a) (height b))"
| "height (VRawArray xs) = Suc (max_list (map height xs))"
| "height (VStdArray t xs) = Suc (max_list (map height xs))"
| "height (VSeq c t xs) = Suc (max (type_height t) (max_list (map height xs)))"
| "height (VMap ord k v es) =
     Suc (max (type_height (TPair k v)) (max_list (map height es)))"
| "height (VUser fs) = Suc (max_list (map height fs))"

lemma max_list_le_iff: "max_list ns \<le> k \<longleftrightarrow> (\<forall>n\<in>set ns. n \<le> k)"
  by (induction ns) auto

lemma max_list_less_Suc_iff: "max_list ns < Suc k \<longleftrightarrow> (\<forall>n\<in>set ns. n \<le> k)"
  by (simp add: less_Suc_eq_le max_list_le_iff)

lemma le_max_list: "n \<in> set ns \<Longrightarrow> n \<le> max_list ns"
  using max_list_le_iff[of ns "max_list ns"] by simp

lemma height_default_val: "height (default_val t) \<le> type_height t"
proof (induction t)
  case (TUser ts)
  have "height (default_val n) \<le> max_list (map type_height ts)" if "n \<in> set ts" for n
    using TUser[OF that] le_max_list[of "type_height n" "map type_height ts"] that
    by (auto intro: order_trans)
  then show ?case
    by (auto simp: max_list_le_iff)
qed (auto simp: max_list_le_iff le_max_iff_disj)

lemma height_resize:
  "max_list (map height (resize n (default_val t) xs))
     \<le> max (type_height t) (max_list (map height xs))"
  unfolding resize_def max_list_le_iff
  by (auto simp: le_max_iff_disj height_default_val dest!: in_set_takeD intro: le_max_list)

lemma height_resize_elem:
  "x \<in> set (resize n (default_val t) xs)
     \<Longrightarrow> height x \<le> max (type_height t) (max_list (map height xs))"
  using height_resize[of n t xs] by (simp add: max_list_le_iff)

text \<open>
  \<^verbatim>\<open>Pak::parse\<close>. \<open>parse_args\<close> is the variadic evaluation of an argument list and
  the loop of the iterator-pair overload; \<open>parse_range\<close> is the call
  \<^verbatim>\<open>parse(op, begin, end)\<close>, which overload resolution sends to the contiguous
  overloads where they are enabled; \<open>read_entries\<close> is the loop of the Read overload
  for maps. Every function returns the values it was given, as the Read phase leaves
  them, and the new state of the buffer.
\<close>

function (sequential)
  parse :: "host \<Rightarrow> phase \<Rightarrow> val \<Rightarrow> pak \<Rightarrow> error + (val \<times> pak)" and
  parse_args :: "host \<Rightarrow> phase \<Rightarrow> val list \<Rightarrow> pak \<Rightarrow> error + (val list \<times> pak)" and
  parse_range :: "host \<Rightarrow> phase \<Rightarrow> iter_cat \<Rightarrow> ty \<Rightarrow> val list \<Rightarrow> pak
                   \<Rightarrow> error + (val list \<times> pak)" and
  read_entries :: "host \<Rightarrow> key_order \<Rightarrow> ty \<Rightarrow> nat \<Rightarrow> val list \<Rightarrow> pak
                    \<Rightarrow> error + (val list \<times> pak)"
where
  "parse_args h op [] p = Inr ([], p)"
| "parse_args h op (t # args) p =
     (case parse h op t p of
        Inl e \<Rightarrow> Inl e
      | Inr (t', p1) \<Rightarrow>
          (case parse_args h op args p1 of
             Inl e \<Rightarrow> Inl e
           | Inr (args', p2) \<Rightarrow> Inr (t' # args', p2)))"
| "parse_range h op c t xs p =
     (case contiguous_range c t xs of
        Some (pt, ps) \<Rightarrow>
          (if block_overrun c op (length ps) then Inl BlockOverrun
           else case parse_contiguous h op pt ps p of
                  Inl e \<Rightarrow> Inl e
                | Inr (ps', p') \<Rightarrow> Inr (map VPrim ps', p'))
      | None \<Rightarrow> parse_args h op xs p)"
| "parse h op (VRawArray xs) p =
     (case parse_args h op xs p of
        Inl e \<Rightarrow> Inl e
      | Inr (xs', p') \<Rightarrow> Inr (VRawArray xs', p'))"
| "parse h op (VPair a b) p =
     (case parse h op a p of
        Inl e \<Rightarrow> Inl e
      | Inr (a', p1) \<Rightarrow>
          (case parse h op b p1 of
             Inl e \<Rightarrow> Inl e
           | Inr (b', p2) \<Rightarrow> Inr (VPair a' b', p2)))"
| "parse h op (VStdArray t xs) p =
     (case parse_range h op RandomAccess t xs p of
        Inl e \<Rightarrow> Inl e
      | Inr (xs', p') \<Rightarrow> Inr (VStdArray t xs', p'))"
| "parse h Read (VMap ord k v es) p =
     (case read_uint32 h p of
        Inl e \<Rightarrow> Inl e
      | Inr (numElements, p1) \<Rightarrow>
          (case read_entries h ord (TPair k v) (unat numElements) [] p1 of
             Inl e \<Rightarrow> Inl e
           | Inr (es', p2) \<Rightarrow> Inr (VMap ord k v es', p2)))"
| "parse h Read (VSeq c t xs) p =
     (case read_uint32 h p of
        Inl e \<Rightarrow> Inl e
      | Inr (n, p1) \<Rightarrow>
          (case parse_range h Read c t (resize (unat n) (default_val t) xs) p1 of
             Inl e \<Rightarrow> Inl e
           | Inr (xs', p2) \<Rightarrow> Inr (VSeq c t xs', p2)))"
| "parse h op (VSeq c t xs) p =
     (let containerSize = (of_nat (length xs) :: 32 word) in
      case parse_prim h op (Int32 containerSize) p of
        Inl e \<Rightarrow> Inl e
      | Inr (n, p1) \<Rightarrow>
          (case parse_range h op c t xs p1 of
             Inl e \<Rightarrow> Inl e
           | Inr (xs', p2) \<Rightarrow> Inr (VSeq c t xs', p2)))"
| "parse h op (VMap ord k v es) p =
     (let containerSize = (of_nat (length es) :: 32 word) in
      case parse_prim h op (Int32 containerSize) p of
        Inl e \<Rightarrow> Inl e
      | Inr (n, p1) \<Rightarrow>
          (case parse_range h op Bidirectional (TPair k v) es p1 of
             Inl e \<Rightarrow> Inl e
           | Inr (es', p2) \<Rightarrow> Inr (VMap ord k v es', p2)))"
| "parse h op (VUser fs) p =
     (case parse_args h op fs p of
        Inl e \<Rightarrow> Inl e
      | Inr (fs', p') \<Rightarrow> Inr (VUser fs', p'))"
| "parse h op (VPrim t) p =
     (case parse_prim h op t p of
        Inl e \<Rightarrow> Inl e
      | Inr (t', p') \<Rightarrow> Inr (VPrim t', p'))"
| "read_entries h ord t 0 es p = Inr (es, p)"
| "read_entries h ord t (Suc n) es p =
     (case parse h Read (default_val t) p of
        Inl e \<Rightarrow> Inl e
      | Inr (e', p1) \<Rightarrow> read_entries h ord t n (map_insert ord es e') p1)"
  by pat_completeness auto

termination
  apply (relation "inv_image (less_than <*lex*> less_than)
     (\<lambda>x. case x of
        Inl (Inl (h, op, v, p)) \<Rightarrow> (height v, 0)
      | Inl (Inr (h, op, vs, p)) \<Rightarrow> (max_list (map height vs), Suc (length vs))
      | Inr (Inl (h, op, c, t, xs, p)) \<Rightarrow> (max_list (map height xs), Suc (Suc (length xs)))
      | Inr (Inr (h, ord, t, n, es, p)) \<Rightarrow> (type_height t, Suc n))")
  apply simp_all
  apply (auto simp: max_list_less_Suc_iff le_max_list height_resize_elem
              dest: le_neq_trans[OF height_default_val])
  done

section \<open>The public interface\<close>

text \<open>
  \<^verbatim>\<open>Pak::write(args...)\<close>: the Reserve pass, \<^verbatim>\<open>bytes.resize(bytes.size() + reserveSize)\<close>
  and the Write pass.
\<close>

definition Pak_write :: "host \<Rightarrow> val list \<Rightarrow> pak \<Rightarrow> error + pak" where
  "Pak_write h args p =
     (case parse_args h Reserve args p of
        Inl e \<Rightarrow> Inl e
      | Inr (args1, p1) \<Rightarrow>
          (let p2 = p1\<lparr>bytes := bytes p1 @ replicate (reserveSize p1) 0\<rparr> in
           case parse_args h Write args p2 of
             Inl e \<Rightarrow> Inl e
           | Inr (args2, p3) \<Rightarrow> Inr p3))"


definition read_value :: "host \<Rightarrow> ty \<Rightarrow> pak \<Rightarrow> error + (val \<times> pak)" where
  "read_value h t p = parse h Read (default_val t) p"

section \<open>Shapes and the wire format\<close>

text \<open>
  \<open>has_type t v\<close>: the value \<open>v\<close> is an object of the C++ type \<open>t\<close>. Two values of one
  type are two objects of identical shape. The entries of a map are held in the strict
  order of their keys, so a map holds no two equivalent keys.
\<close>

definition ascending :: "key_order \<Rightarrow> val list \<Rightarrow> bool" where
  "ascending ord es = sorted_wrt (\<lambda>a b. key_less ord (key_of a) (key_of b)) es"



text \<open>
  Every \<^verbatim>\<open>std::deque\<close> of arithmetic elements inside the value lies in one block, so
  that the copies of the contiguous overloads stay inside it.
\<close>

fun in_block :: "iter_cat \<Rightarrow> ty \<Rightarrow> nat \<Rightarrow> bool" where
  "in_block (Segmented room) (TPrim t) n = (n \<le> room)"
| "in_block c t n = True"

fun in_blocks :: "val \<Rightarrow> bool" where
  "in_blocks (VPrim x) = True"
| "in_blocks (VPair a b) = (in_blocks a \<and> in_blocks b)"
| "in_blocks (VRawArray xs) = list_all in_blocks xs"
| "in_blocks (VStdArray t xs) = list_all in_blocks xs"
| "in_blocks (VSeq c t xs) = (in_block c t (length xs) \<and> list_all in_blocks xs)"
| "in_blocks (VMap ord k v es) = list_all in_blocks es"
| "in_blocks (VUser fs) = list_all in_blocks fs"

text \<open>
  \<^verbatim>\<open>write\<close> visits the entries of a map as \<^verbatim>\<open>std::pair<const Key, T>\<close>, so it hands
  each key to \<^verbatim>\<open>parse\<close> as a const object. The overloads for arithmetic types take
  their argument by value, and the overloads for user-defined types take a
  \<^verbatim>\<open>const T&\<close> and cast the const away: such a key is traversed like any other
  object. The overloads for \<^verbatim>\<open>std::pair\<close> and \<^verbatim>\<open>std::array\<close> do not accept a const
  object, which is left with the variadic overload and is handed to \<^verbatim>\<open>parse\<close> again
  without end; and the Write overload for contiguous ranges does not build for the
  const elements of a container (\<^verbatim>\<open>copyPrimitiveArray\<close> takes two pointers of one
  type). The traversal above treats a key like any other object: it describes
  \<^verbatim>\<open>write\<close> for the maps whose keys are arithmetic or user-defined, which
  \<open>const_keys\<close> singles out. \<^verbatim>\<open>read\<close> constructs each key as a non-const object.
\<close>

fun const_key :: "ty \<Rightarrow> bool" where
  "const_key (TPrim t) = True"
| "const_key (TUser ts) = True"
| "const_key t = False"

fun const_keys :: "val \<Rightarrow> bool" where
  "const_keys (VPrim x) = True"
| "const_keys (VPair a b) = (const_keys a \<and> const_keys b)"
| "const_keys (VRawArray xs) = list_all const_keys xs"
| "const_keys (VStdArray t xs) = list_all const_keys xs"
| "const_keys (VSeq c t xs) = list_all const_keys xs"
| "const_keys (VMap ord k v es) = (const_key k \<and> list_all const_keys es)"
| "const_keys (VUser fs) = list_all const_keys fs"

definition writable :: "val \<Rightarrow> bool" where
  "writable v = (in_blocks v \<and> const_keys v)"

text \<open>
  The wire format as the specification describes it: the bytes of a primitive as the
  Write phase leaves them in the buffer, the size and the encoding of a value.
\<close>

definition wire_bytes :: "host \<Rightarrow> prim \<Rightarrow> byte list" where
  "wire_bytes h x = object_bytes h (copyPrimitive h x)"

fun wire_size :: "val \<Rightarrow> nat" where
  "wire_size (VPrim x) = sizeof (pty_of x)"
| "wire_size (VPair a b) = wire_size a + wire_size b"
| "wire_size (VRawArray xs) = sum_list (map wire_size xs)"
| "wire_size (VStdArray t xs) = sum_list (map wire_size xs)"
| "wire_size (VSeq c t xs) = 4 + sum_list (map wire_size xs)"
| "wire_size (VMap ord k v es) = 4 + sum_list (map wire_size es)"
| "wire_size (VUser fs) = sum_list (map wire_size fs)"

fun encode :: "host \<Rightarrow> val \<Rightarrow> byte list" where
  "encode h (VPrim x) = wire_bytes h x"
| "encode h (VPair a b) = encode h a @ encode h b"
| "encode h (VRawArray xs) = concat (map (encode h) xs)"
| "encode h (VStdArray t xs) = concat (map (encode h) xs)"
| "encode h (VSeq c t xs) =
     le_bytes 4 (of_nat (length xs) :: 32 word) @ concat (map (encode h) xs)"
| "encode h (VMap ord k v es) =
     le_bytes 4 (of_nat (length es) :: 32 word) @ concat (map (encode h) es)"
| "encode h (VUser fs) = concat (map (encode h) fs)"

subsection \<open>Auxiliary notions\<close>

text \<open>
  Auxiliary notions for stating what a pass does: \<open>patch\<close> overwrites a stretch of a
  buffer, \<open>put\<close> is a bounds-checked write at the write cursor, and \<open>holds_at\<close> says
  that a buffer holds given bytes at a position.
\<close>

definition patch :: "nat \<Rightarrow> byte list \<Rightarrow> byte list \<Rightarrow> byte list" where
  "patch pos src buf = take pos buf @ src @ drop (pos + length src) buf"

definition put :: "byte list \<Rightarrow> pak \<Rightarrow> error + pak" where
  "put bs p =
     (case store (writePosition p) bs (bytes p) of
        Inl e \<Rightarrow> Inl e
      | Inr b \<Rightarrow> Inr (p\<lparr>bytes := b, writePosition := writePosition p + length bs\<rparr>))"

definition holds_at :: "nat \<Rightarrow> byte list \<Rightarrow> byte list \<Rightarrow> bool" where
  "holds_at pos bs buf = (take (length bs) (drop pos buf) = bs)"


subsection \<open>Example values\<close>

text \<open>A \<^verbatim>\<open>std::string\<close> of \<open>2^32 + 3\<close> zero characters.\<close>

definition huge_string :: val where
  "huge_string = VSeq RandomAccess (TPrim TInt8) (replicate (2 ^ 32 + 3) (VPrim (Int8 0)))"

text \<open>The map \<^verbatim>\<open>{1: "a"}\<close> of type \<^verbatim>\<open>std::map<std::int32_t, std::string>\<close>.\<close>

definition map_1a :: val where
  "map_1a = VMap SignedLess (TPrim TInt32) (TSeq RandomAccess (TPrim TInt8))
     [VPair (VPrim (Int32 1)) (VSeq RandomAccess (TPrim TInt8) [VPrim (Int8 97)])]"




section \<open>Byte order\<close>

lemma byteSwap_loop_rev:
  "e < length bs \<Longrightarrow> b \<le> Suc e \<Longrightarrow>
   byteSwap_loop b e bs = take b bs @ rev (drop b (take (Suc e) bs)) @ drop (Suc e) bs"
proof (induction b e bs rule: byteSwap_loop.induct)
  case (1 b e bs)
  show ?case
  proof (cases "b < e")
    case True
    let ?bs = "bs[b := bs ! e, e := bs ! b]"
    have len: "length ?bs = length bs" by simp
    have IH: "byteSwap_loop (b + 1) (e - 1) ?bs
        = take (b + 1) ?bs @ rev (drop (b + 1) (take (Suc (e - 1)) ?bs)) @ drop (Suc (e - 1)) ?bs"
      using "1.IH"[OF True] "1.prems" True by simp
    have e: "Suc (e - 1) = e" using True by simp
    have t1: "take (b + 1) ?bs = take b bs @ [bs ! e]"
      using True "1.prems" by (simp add: take_Suc_conv_app_nth)
    have t2: "drop e ?bs = bs ! b # drop (Suc e) bs"
      using True "1.prems" by (simp add: Cons_nth_drop_Suc[symmetric])
    have t3: "drop (b + 1) (take e ?bs) = drop (Suc b) (take e bs)"
      using True "1.prems" by (simp add: drop_take)
    have t4: "drop b (take (Suc e) bs) = bs ! b # drop (Suc b) (take e bs) @ [bs ! e]"
      using True "1.prems"
      by (simp add: take_Suc_conv_app_nth Cons_nth_drop_Suc[symmetric] nth_append)
    have "byteSwap_loop b e bs = byteSwap_loop (b + 1) (e - 1) ?bs"
      using True by (subst byteSwap_loop.simps) simp
    also have "\<dots> = (take b bs @ [bs ! e]) @ rev (drop (Suc b) (take e bs)) @ bs ! b # drop (Suc e) bs"
      unfolding IH e t1 t2 t3 by simp
    finally show ?thesis
      by (simp add: t4)
  next
    case False
    then consider "b = e" | "b = Suc e" using "1.prems" by linarith
    then show ?thesis
    proof cases
      case 1
      then show ?thesis using "1.prems" False
        by (simp add: take_Suc_conv_app_nth drop_take id_take_nth_drop[symmetric])
    next
      case 2
      then show ?thesis using False by simp
    qed
  qed
qed

lemma byteSwap_portable_rev: "byteSwap_portable bs = rev bs"
proof (cases "bs = []")
  case True
  then show ?thesis by (simp add: byteSwap_portable_def)
next
  case False
  then show ?thesis
    using byteSwap_loop_rev[of "length bs - 1" bs 0]
    by (simp add: byteSwap_portable_def del: byteSwap_loop.simps)
qed

lemma length_le_bytes: "length (le_bytes n w) = n"
  by (induction n arbitrary: w) auto

lemma le_bytes_numeral:
  "le_bytes (numeral k) w = ucast w # le_bytes (pred_numeral k) (drop_bit 8 w)"
  by (simp add: numeral_eq_Suc)

lemma isBigEndian_iff: "isBigEndian h \<longleftrightarrow> h = BigEndian"
  by (cases h) (simp_all add: isBigEndian_def object_bytes_def le_bytes_numeral)

lemma of_le_bytes_le_bytes:
  "(of_le_bytes (le_bytes n w) :: 'a::len word) = take_bit (8 * n) w"
proof (induction n arbitrary: w)
  case 0
  show ?case by simp
next
  case (Suc n)
  show ?case
    by (simp add: Suc) (rule bit_eqI, auto simp add: bit_simps)
qed

lemma byte_bit_hi: "bit (b::byte) (8 + n) = False"
  by (auto dest: bit_imp_le_length)

lemma le_bytes_take_bit: "8 * n \<le> k \<Longrightarrow> le_bytes n (take_bit k w) = le_bytes n w"
proof (induction n arbitrary: w k)
  case 0
  show ?case by simp
next
  case (Suc n)
  have a: "(ucast (take_bit k w) :: byte) = ucast w"
    using Suc.prems by (intro bit_eqI) (auto simp add: bit_simps)
  have b: "drop_bit 8 (take_bit k w) = take_bit (k - 8) (drop_bit 8 w)"
    using Suc.prems by (intro bit_eqI) (auto simp add: bit_simps)
  show ?case
    using Suc.prems by (simp add: a b Suc.IH)
qed

lemma le_bytes_of_le_bytes:
  "length bs = n \<Longrightarrow> 8 * n \<le> LENGTH('a)
     \<Longrightarrow> le_bytes n (of_le_bytes bs :: 'a::len word) = bs"
proof (induction bs arbitrary: n)
  case Nil
  then show ?case by simp
next
  case (Cons b bs)
  then obtain m where n: "n = Suc m" and m: "length bs = m"
    by (cases n) auto
  have a: "(ucast (ucast b OR push_bit 8 (of_le_bytes bs :: 'a word) :: 'a word) :: byte) = b"
    using Cons.prems n by (intro bit_eqI) (auto simp add: bit_simps)
  have b: "drop_bit 8 (ucast b OR push_bit 8 (of_le_bytes bs :: 'a word) :: 'a word)
             = take_bit (LENGTH('a) - 8) (of_le_bytes bs :: 'a word)"
    by (intro bit_eqI) (auto simp add: bit_simps byte_bit_hi)
  show ?case
    using Cons n m a b by (simp add: le_bytes_take_bit)
qed

lemma mask_FF00: "(0xFF00 :: 'a::len word) = push_bit 8 (mask 8)"
  by (simp add: mask_eq_exp_minus_1 push_bit_eq_mult)

lemma mask_FF0000: "(0xFF0000 :: 'a::len word) = push_bit 16 (mask 8)"
  by (simp add: mask_eq_exp_minus_1 push_bit_eq_mult)

lemma mask_FF000000: "(0xFF000000 :: 'a::len word) = push_bit 24 (mask 8)"
  by (simp add: mask_eq_exp_minus_1 push_bit_eq_mult)

lemma le_bytes_bswap16: "le_bytes 2 (bswap16 x) = rev (le_bytes 2 x)"
  unfolding bswap16_def
  by (simp add: le_bytes_numeral) (intro conjI; rule bit_eqI; simp add: bit_simps)

lemma le_bytes_bswap32: "le_bytes 4 (bswap32 x) = rev (le_bytes 4 x)"
  unfolding bswap32_def mask_FF00
  by (simp add: le_bytes_numeral) (intro conjI; rule bit_eqI; simp add: bit_simps)

lemma le_bytes_bswap64: "le_bytes 8 (bswap64 x) = rev (le_bytes 8 x)"
  unfolding bswap64_def mask_FF00 mask_FF0000 mask_FF000000
  by (simp add: le_bytes_numeral) (intro conjI; rule bit_eqI; simp add: bit_simps)

lemma length_value_bytes: "length (value_bytes x) = sizeof (pty_of x)"
  by (cases x) (simp_all add: length_le_bytes)

lemma pty_of_value_of_bytes: "pty_of (value_of_bytes t bs) = t"
  by (cases t) simp_all

lemma value_of_bytes_value_bytes: "value_of_bytes (pty_of x) (value_bytes x) = x"
  by (cases x) (simp_all add: of_le_bytes_le_bytes take_bit_word_eq_self)

lemma value_bytes_value_of_bytes:
  "length bs = sizeof t \<Longrightarrow> value_bytes (value_of_bytes t bs) = bs"
proof (cases t)
  case TInt8
  assume "length bs = sizeof t"
  with TInt8 obtain b where "bs = [b]"
    by (cases bs) auto
  with TInt8 show ?thesis by simp
qed (simp_all add: le_bytes_of_le_bytes)

lemma value_bytes_inject: "pty_of x = pty_of y \<Longrightarrow> value_bytes x = value_bytes y \<Longrightarrow> x = y"
  by (metis value_of_bytes_value_bytes)

lemma pty_of_byteSwap: "pty_of (byteSwap x) = pty_of x"
  by (cases x) simp_all

lemma value_bytes_byteSwap:
  "is_integral (pty_of x) \<Longrightarrow> value_bytes (byteSwap x) = rev (value_bytes x)"
  by (cases x) (simp_all add: le_bytes_bswap16 le_bytes_bswap32 le_bytes_bswap64)

lemma byteSwap_twice: "byteSwap (byteSwap x) = x"
proof (cases "is_integral (pty_of x)")
  case True
  then have "value_bytes (byteSwap (byteSwap x)) = value_bytes x"
    by (simp add: value_bytes_byteSwap pty_of_byteSwap)
  then show ?thesis
    by (intro value_bytes_inject) (simp_all add: pty_of_byteSwap)
next
  case False
  then show ?thesis by (cases x) simp_all
qed

text \<open>
  Claim C7, as stated, fails for the floating-point primitives, which are arithmetic
  primitives of width 4 and 8: for them overload resolution selects the variadic
  \<^verbatim>\<open>void byteSwap(...) { }\<close>, which does nothing. The \<^verbatim>\<open>float\<close> 1.0 (bit pattern
  \<open>0x3F800000\<close>) comes back from \<^verbatim>\<open>byteSwap\<close> as it went in, and its bytes are not
  reversed.
\<close>

theorem byteSwap_leaves_float:
  "byteSwap (Float32 0x3F800000) = Float32 0x3F800000
   \<and> value_bytes (byteSwap (Float32 0x3F800000)) = [0, 0, 0x80, 0x3F]
   \<and> rev (value_bytes (Float32 0x3F800000)) = [0x3F, 0x80, 0, 0]
   \<and> value_bytes (byteSwap (Float32 0x3F800000)) \<noteq> rev (value_bytes (Float32 0x3F800000))"
  by (simp add: le_bytes_numeral)

text \<open>
  Claim C7, amended. Applying \<^verbatim>\<open>byteSwap\<close> twice to an arithmetic primitive gives back
  its bit pattern, for every type. On an integral primitive of width 2, 4 or 8 a single
  application reverses the bytes of the value; a floating-point primitive and a
  single-byte primitive are left as they are. The portable loop reverses the bytes of
  the object it is given and is its own inverse as well.
\<close>

theorem byteSwap_self_inverse:
  "byteSwap (byteSwap x) = x
   \<and> value_bytes (byteSwap (Int16 a)) = rev (value_bytes (Int16 a))
   \<and> value_bytes (byteSwap (Int32 b)) = rev (value_bytes (Int32 b))
   \<and> value_bytes (byteSwap (Int64 c)) = rev (value_bytes (Int64 c))
   \<and> byteSwap (Float32 f) = Float32 f
   \<and> byteSwap (Float64 g) = Float64 g
   \<and> byteSwap (Int8 i) = Int8 i
   \<and> byteSwap_portable bs = rev bs
   \<and> byteSwap_portable (byteSwap_portable bs) = bs"
  by (simp add: byteSwap_twice le_bytes_bswap16 le_bytes_bswap32 le_bytes_bswap64
        byteSwap_portable_rev)

section \<open>Primitives on the wire\<close>

lemma length_object_bytes: "length (object_bytes h x) = sizeof (pty_of x)"
  by (cases h) (simp_all add: object_bytes_def length_value_bytes)

lemma pty_of_object_of_bytes: "pty_of (object_of_bytes h t bs) = t"
  by (cases h) (simp_all add: object_of_bytes_def pty_of_value_of_bytes)

lemma object_of_bytes_object_bytes: "object_of_bytes h (pty_of x) (object_bytes h x) = x"
  by (cases h) (simp_all add: object_of_bytes_def object_bytes_def value_of_bytes_value_bytes)

lemma object_bytes_object_of_bytes:
  "length bs = sizeof t \<Longrightarrow> object_bytes h (object_of_bytes h t bs) = bs"
  by (cases h) (simp_all add: object_of_bytes_def object_bytes_def value_bytes_value_of_bytes)

lemma pty_of_copyPrimitive: "pty_of (copyPrimitive h x) = pty_of x"
  by (simp add: copyPrimitive_def pty_of_byteSwap)

lemma copyPrimitive_twice: "copyPrimitive h (copyPrimitive h x) = x"
  by (simp add: copyPrimitive_def pty_of_byteSwap byteSwap_twice)

lemma length_wire_bytes: "length (wire_bytes h x) = sizeof (pty_of x)"
  by (simp add: wire_bytes_def length_object_bytes pty_of_copyPrimitive)

lemma wire_bytes_nonempty: "wire_bytes h x \<noteq> []"
  using length_wire_bytes[of h x] sizeof_pos[of "pty_of x"] by auto

lemma rev_value_bytes_Int8: "pty_of x = TInt8 \<Longrightarrow> rev (value_bytes x) = value_bytes x"
  by (cases x) simp_all

lemma wire_bytes_integral: "is_integral (pty_of x) \<Longrightarrow> wire_bytes h x = value_bytes x"
proof (cases h)
  case LittleEndian
  then show ?thesis
    by (simp add: wire_bytes_def copyPrimitive_def shouldByteSwap_def isBigEndian_iff object_bytes_def)
next
  case BigEndian
  assume int: "is_integral (pty_of x)"
  show ?thesis
  proof (cases "1 < sizeof (pty_of x)")
    case True
    with BigEndian int show ?thesis
      by (simp add: wire_bytes_def copyPrimitive_def shouldByteSwap_def isBigEndian_iff object_bytes_def
            value_bytes_byteSwap)
  next
    case False
    then have "pty_of x = TInt8" by (cases x) simp_all
    with BigEndian show ?thesis
      by (simp add: wire_bytes_def copyPrimitive_def shouldByteSwap_def isBigEndian_iff object_bytes_def
            rev_value_bytes_Int8)
  qed
qed

lemma wire_bytes_not_integral:
  "\<not> is_integral (pty_of x) \<Longrightarrow> wire_bytes h x = object_bytes h x"
  by (simp add: wire_bytes_def copyPrimitive_def shouldByteSwap_def isBigEndian_iff)

lemma read_wire_bytes:
  "copyPrimitive h (object_of_bytes h (pty_of x) (wire_bytes h x)) = x"
  using object_of_bytes_object_bytes[of h "copyPrimitive h x"]
  by (simp add: wire_bytes_def pty_of_copyPrimitive copyPrimitive_twice)

section \<open>The three passes\<close>

declare parse_range.simps [simp del]
declare byteSwap_elements.simps [simp del]
declare objects_of_bytes.simps [simp del]
declare byteSwap_loop.simps [simp del]

lemma the_prims_map: "list_all (\<lambda>x. pty_of x = t) ps \<Longrightarrow> the_prims t (map VPrim ps) = Some ps"
  by (induction ps) auto

lemma the_prims_Some:
  "the_prims t vs = Some ps \<Longrightarrow> vs = map VPrim ps \<and> list_all (\<lambda>x. pty_of x = t) ps"
  by (induction t vs arbitrary: ps rule: the_prims.induct) (auto split: if_splits)

lemma contiguous_range_Some:
  "contiguous_range c t vs = Some (pt, ps)
     \<Longrightarrow> t = TPrim pt \<and> vs = map VPrim ps \<and> list_all (\<lambda>x. pty_of x = pt) ps"
  by (cases "(c, t, vs)" rule: contiguous_range.cases) (auto dest: the_prims_Some)

lemma block_overrun_Reserve: "block_overrun c Reserve n = False"
  by (cases c) simp_all

lemma in_block_no_overrun: "in_block c (TPrim t) n \<Longrightarrow> \<not> block_overrun c op n"
  by (cases c; cases op) simp_all

lemma in_block_0: "in_block c t 0"
  by (cases c; cases t) simp_all

lemma list_all_replicate: "P x \<Longrightarrow> list_all P (replicate n x)"
  by (induction n) simp_all

lemma in_blocks_prims: "list_all in_blocks (map VPrim ps)"
  by (induction ps) simp_all

lemma store_in_bounds:
  "pos + length src \<le> length buf \<Longrightarrow> store pos src buf = Inr (patch pos src buf)"
  by (simp add: store_def patch_def)

lemma length_patch: "pos + length src \<le> length buf \<Longrightarrow> length (patch pos src buf) = length buf"
  by (simp add: patch_def)

lemma patch_patch:
  "pos + length a + length c \<le> length buf
     \<Longrightarrow> patch (pos + length a) c (patch pos a buf) = patch pos (a @ c) buf"
  by (simp add: patch_def ac_simps)

lemma store_append:
  "(case store pos a buf of Inl e \<Rightarrow> Inl e | Inr b \<Rightarrow> store (pos + length a) c b)
     = store pos (a @ c) buf"
proof (cases "a = [] \<or> c = []")
  case True
  then show ?thesis by (auto simp: store_def)
next
  case False
  show ?thesis
  proof (cases "pos + length a + length c \<le> length buf")
    case True
    then have "store pos a buf = Inr (patch pos a buf)"
      by (simp add: store_in_bounds)
    moreover have "store (pos + length a) c (patch pos a buf)
        = Inr (patch (pos + length a) c (patch pos a buf))"
      using True by (simp add: store_in_bounds length_patch)
    moreover have "store pos (a @ c) buf = Inr (patch pos (a @ c) buf)"
      using True by (simp add: store_in_bounds)
    ultimately show ?thesis
      using True by (simp add: patch_patch)
  next
    case out: False
    then have "store pos (a @ c) buf = Inl BoundsViolation"
      using False by (simp add: store_def)
    moreover have "store (pos + length a) c (patch pos a buf) = Inl BoundsViolation"
      if "pos + length a \<le> length buf"
      using that out False by (simp add: store_def length_patch)
    ultimately show ?thesis
      using False by (auto simp: store_def patch_def)
  qed
qed

lemma put_append:
  "(case put a p of Inl e \<Rightarrow> Inl e | Inr p1 \<Rightarrow> put c p1) = put (a @ c) p"
  using store_append[where pos = "writePosition p" and a = a and buf = "bytes p" and c = c]
  by (auto simp: put_def add.assoc split: sum.splits)

lemma put_Nil: "put [] p = Inr p"
  by (simp add: put_def store_def)

subsection \<open>Reserve\<close>

lemma sum_wire_size_prims:
  "list_all (\<lambda>x. pty_of x = t) ps \<Longrightarrow> sum_list (map (wire_size \<circ> VPrim) ps) = length ps * sizeof t"
  by (induction ps) auto

lemma parse_args_Reserve_aux:
  assumes "\<And>x p. x \<in> set xs \<Longrightarrow>
             parse h Reserve x p = Inr (x, p\<lparr>reserveSize := reserveSize p + wire_size x\<rparr>)"
  shows "parse_args h Reserve xs p
           = Inr (xs, p\<lparr>reserveSize := reserveSize p + sum_list (map wire_size xs)\<rparr>)"
  using assms by (induction xs arbitrary: p) (simp_all add: add.assoc)

lemma parse_range_Reserve_aux:
  assumes "\<And>x p. x \<in> set xs \<Longrightarrow>
             parse h Reserve x p = Inr (x, p\<lparr>reserveSize := reserveSize p + wire_size x\<rparr>)"
  shows "parse_range h Reserve c t xs p
           = Inr (xs, p\<lparr>reserveSize := reserveSize p + sum_list (map wire_size xs)\<rparr>)"
proof (cases "contiguous_range c t xs")
  case None
  then show ?thesis
    using parse_args_Reserve_aux[OF assms] by (simp add: parse_range.simps)
next
  case (Some a)
  then obtain pt ps where a: "a = (pt, ps)" by (cases a)
  from contiguous_range_Some[OF Some[unfolded a]] Some a show ?thesis
    by (auto simp: parse_range.simps sum_wire_size_prims block_overrun_Reserve)
qed

lemma parse_Reserve:
  "parse h Reserve v p = Inr (v, p\<lparr>reserveSize := reserveSize p + wire_size v\<rparr>)"
proof (induction v arbitrary: p)
  case (VPrim x)
  show ?case by simp
next
  case (VPair a b)
  then show ?case by (simp add: add.assoc)
next
  case (VRawArray xs)
  then show ?case by (simp add: parse_args_Reserve_aux)
next
  case (VStdArray t xs)
  then show ?case by (simp add: parse_range_Reserve_aux)
next
  case (VSeq c t xs)
  then show ?case by (simp add: parse_range_Reserve_aux add.assoc)
next
  case (VMap ord k v es)
  then show ?case by (simp add: parse_range_Reserve_aux add.assoc)
next
  case (VUser fs)
  then show ?case by (simp add: parse_args_Reserve_aux)
qed

lemma parse_args_Reserve:
  "parse_args h Reserve xs p
     = Inr (xs, p\<lparr>reserveSize := reserveSize p + sum_list (map wire_size xs)\<rparr>)"
  by (simp add: parse_args_Reserve_aux parse_Reserve)

lemma parse_range_Reserve:
  "parse_range h Reserve c t xs p
     = Inr (xs, p\<lparr>reserveSize := reserveSize p + sum_list (map wire_size xs)\<rparr>)"
  by (simp add: parse_range_Reserve_aux parse_Reserve)

subsection \<open>Write\<close>

lemma length_concat_object_bytes:
  "list_all (\<lambda>x. pty_of x = t) ps
     \<Longrightarrow> length (concat (map (object_bytes h) ps)) = length ps * sizeof t"
  by (induction ps) (auto simp: length_object_bytes)

lemma length_concat_wire_bytes:
  "list_all (\<lambda>x. pty_of x = t) ps
     \<Longrightarrow> length (concat (map (wire_bytes h) ps)) = length ps * sizeof t"
  by (induction ps) (auto simp: length_wire_bytes)

lemma byteSwap_elements_Nil: "byteSwap_elements h t [] = []"
  by (subst byteSwap_elements.simps) simp

lemma byteSwap_elements_append:
  "length a = sizeof t \<Longrightarrow>
   byteSwap_elements h t (a @ rest)
     = object_bytes h (byteSwap (object_of_bytes h t a)) @ byteSwap_elements h t rest"
  using sizeof_pos[of t] by (subst byteSwap_elements.simps) auto

lemma byteSwap_elements_objects:
  "list_all (\<lambda>x. pty_of x = t) ps \<Longrightarrow>
   byteSwap_elements h t (concat (map (object_bytes h) ps))
     = concat (map (\<lambda>x. object_bytes h (byteSwap x)) ps)"
proof (induction ps)
  case Nil
  show ?case by (simp add: byteSwap_elements_Nil)
next
  case (Cons x ps)
  then show ?case
    using object_of_bytes_object_bytes[of h x]
    by (simp add: byteSwap_elements_append length_object_bytes)
qed

lemma copyPrimitiveArray_objects:
  assumes "list_all (\<lambda>x. pty_of x = t) ps"
  shows "copyPrimitiveArray h t (concat (map (object_bytes h) ps)) = concat (map (wire_bytes h) ps)"
proof -
  have eq: "map (wire_bytes h) ps
      = (if shouldByteSwap h t then map (\<lambda>x. object_bytes h (byteSwap x)) ps
         else map (object_bytes h) ps)"
    using assms by (induction ps) (auto simp: wire_bytes_def copyPrimitive_def)
  show ?thesis
    using assms sizeof_pos[of t]
    by (cases "ps = []")
       (simp_all add: copyPrimitiveArray_def eq byteSwap_elements_objects
          length_concat_object_bytes)
qed

lemma parse_contiguous_Write:
  assumes "list_all (\<lambda>x. pty_of x = t) ps"
  shows "parse_contiguous h Write t ps p
           = (case put (concat (map (wire_bytes h) ps)) p of
                Inl e \<Rightarrow> Inl e | Inr p' \<Rightarrow> Inr (ps, p'))"
  using assms
  by (simp add: put_def copyPrimitiveArray_objects length_concat_object_bytes
        length_concat_wire_bytes split: sum.splits)

lemma length_encode: "length (encode h v) = wire_size v"
  by (induction v)
     (simp_all add: length_wire_bytes length_le_bytes length_concat comp_def cong: map_cong)

lemma length_concat_encode: "length (concat (map (encode h) xs)) = sum_list (map wire_size xs)"
  by (simp add: length_concat comp_def length_encode)

lemma parse_args_Write_aux:
  assumes "\<And>x p. x \<in> set xs \<Longrightarrow>
             parse h Write x p
               = (case put (encode h x) p of Inl e \<Rightarrow> Inl e | Inr p' \<Rightarrow> Inr (x, p'))"
  shows "parse_args h Write xs p
           = (case put (concat (map (encode h) xs)) p of
                Inl e \<Rightarrow> Inl e | Inr p' \<Rightarrow> Inr (xs, p'))"
  using assms
proof (induction xs arbitrary: p)
  case Nil
  show ?case by (simp add: put_Nil)
next
  case (Cons x xs)
  show ?case
    by (simp add: Cons put_append[symmetric] split: sum.splits)
qed

lemma parse_range_Write_aux:
  assumes "\<And>x p. x \<in> set xs \<Longrightarrow>
             parse h Write x p
               = (case put (encode h x) p of Inl e \<Rightarrow> Inl e | Inr p' \<Rightarrow> Inr (x, p'))"
    and "in_block c t (length xs)"
  shows "parse_range h Write c t xs p
           = (case put (concat (map (encode h) xs)) p of
                Inl e \<Rightarrow> Inl e | Inr p' \<Rightarrow> Inr (xs, p'))"
proof (cases "contiguous_range c t xs")
  case None
  then show ?thesis
    using parse_args_Write_aux[OF assms(1)] by (simp add: parse_range.simps)
next
  case (Some a)
  then obtain pt ps where a: "a = (pt, ps)" by (cases a)
  from contiguous_range_Some[OF Some[unfolded a]]
  have c: "t = TPrim pt" "xs = map VPrim ps" "list_all (\<lambda>x. pty_of x = pt) ps"
    by simp_all
  have "\<not> block_overrun c Write (length ps)"
    using assms(2) c(1,2) by (simp add: in_block_no_overrun)
  with c Some a show ?thesis
    by (auto simp: parse_range.simps parse_contiguous_Write comp_def simp del: parse_contiguous.simps
          split: sum.splits)
qed

lemma parse_prim_Write:
  "parse_prim h Write x p
     = (case put (wire_bytes h x) p of Inl e \<Rightarrow> Inl e | Inr p' \<Rightarrow> Inr (x, p'))"
  by (simp add: put_def wire_bytes_def length_object_bytes pty_of_copyPrimitive split: sum.splits)

lemma parse_Write:
  "in_blocks v \<Longrightarrow>
   parse h Write v p
     = (case put (encode h v) p of Inl e \<Rightarrow> Inl e | Inr p' \<Rightarrow> Inr (v, p'))"
proof (induction v arbitrary: p)
  case (VPrim x)
  show ?case by (simp add: parse_prim_Write del: parse_prim.simps split: sum.splits)
next
  case (VPair a b)
  then show ?case
    by (simp add: put_append[symmetric] split: sum.splits)
next
  case (VRawArray xs)
  then have "parse_args h Write xs p
      = (case put (concat (map (encode h) xs)) p of Inl e \<Rightarrow> Inl e | Inr p' \<Rightarrow> Inr (xs, p'))"
    by (intro parse_args_Write_aux) (simp add: list_all_iff)
  then show ?case by (simp split: sum.splits)
next
  case (VStdArray t xs)
  then have "parse_range h Write RandomAccess t xs p
      = (case put (concat (map (encode h) xs)) p of Inl e \<Rightarrow> Inl e | Inr p' \<Rightarrow> Inr (xs, p'))"
    by (intro parse_range_Write_aux) (simp_all add: list_all_iff)
  then show ?case by (simp split: sum.splits)
next
  case (VSeq c t xs)
  have R: "parse_range h Write c t xs q
      = (case put (concat (map (encode h) xs)) q of Inl e \<Rightarrow> Inl e | Inr p' \<Rightarrow> Inr (xs, p'))"
    for q
    using VSeq by (intro parse_range_Write_aux) (simp_all add: list_all_iff)
  show ?case
    using wire_bytes_integral[of "Int32 (of_nat (length xs))" h]
    by (simp add: R parse_prim_Write put_append[symmetric] del: parse_prim.simps
          split: sum.splits)
next
  case (VMap ord k v es)
  have R: "parse_range h Write Bidirectional (TPair k v) es q
      = (case put (concat (map (encode h) es)) q of Inl e \<Rightarrow> Inl e | Inr p' \<Rightarrow> Inr (es, p'))"
    for q
    using VMap by (intro parse_range_Write_aux) (simp_all add: list_all_iff)
  show ?case
    using wire_bytes_integral[of "Int32 (of_nat (length es))" h]
    by (simp add: R parse_prim_Write put_append[symmetric] del: parse_prim.simps
          split: sum.splits)
next
  case (VUser fs)
  then have "parse_args h Write fs p
      = (case put (concat (map (encode h) fs)) p of Inl e \<Rightarrow> Inl e | Inr p' \<Rightarrow> Inr (fs, p'))"
    by (intro parse_args_Write_aux) (simp add: list_all_iff)
  then show ?case by (simp split: sum.splits)
qed

lemma parse_args_Write:
  "list_all in_blocks xs \<Longrightarrow>
   parse_args h Write xs p
     = (case put (concat (map (encode h) xs)) p of Inl e \<Rightarrow> Inl e | Inr p' \<Rightarrow> Inr (xs, p'))"
  by (intro parse_args_Write_aux parse_Write) (simp add: list_all_iff)

lemma parse_range_Write:
  "in_block c t (length xs) \<Longrightarrow> list_all in_blocks xs \<Longrightarrow>
   parse_range h Write c t xs p
     = (case put (concat (map (encode h) xs)) p of Inl e \<Rightarrow> Inl e | Inr p' \<Rightarrow> Inr (xs, p'))"
  by (intro parse_range_Write_aux parse_Write) (simp_all add: list_all_iff)

section \<open>What a write leaves in the buffer\<close>

lemma Pak_write_result:
  assumes "writePosition p \<le> length (bytes p) + reserveSize p"
    and "list_all in_blocks args"
  shows "Pak_write h args p =
     Inr \<lparr>bytes = patch (writePosition p) (concat (map (encode h) args))
                    (bytes p @ replicate (reserveSize p + sum_list (map wire_size args)) 0),
          reserveSize = reserveSize p + sum_list (map wire_size args),
          writePosition = writePosition p + sum_list (map wire_size args),
          readPosition = readPosition p\<rparr>"
  using assms
  by (simp add: Pak_write_def parse_args_Reserve parse_args_Write put_def store_in_bounds
        length_concat_encode)

lemma Pak_write_fresh:
  "list_all in_blocks args \<Longrightarrow>
   Pak_write h args Pak =
     Inr \<lparr>bytes = concat (map (encode h) args),
          reserveSize = sum_list (map wire_size args),
          writePosition = sum_list (map wire_size args),
          readPosition = 0\<rparr>"
  using Pak_write_result[of Pak args h]
  by (simp add: Pak_def patch_def length_concat_encode)

lemma replicate_numeral_Cons:
  "replicate (numeral k) x = x # replicate (pred_numeral k) x"
  by (simp add: numeral_eq_Suc)

text \<open>
  Claim C9. The Reserve pass over any argument list returns (it has no failure), and
  leaves the buffer, the write cursor and the read cursor as they were: only
  \<^verbatim>\<open>reserveSize\<close> changes, by the wire size of the arguments. The same holds for a
  single value and for the contiguous-range overload.
\<close>

theorem reserve_pass_frame:
  "(\<exists>p'. parse_args h Reserve args p = Inr (args, p')
        \<and> bytes p' = bytes p \<and> writePosition p' = writePosition p
        \<and> readPosition p' = readPosition p
        \<and> reserveSize p' = reserveSize p + sum_list (map wire_size args))
   \<and> parse h Reserve v p = Inr (v, p\<lparr>reserveSize := reserveSize p + wire_size v\<rparr>)
   \<and> parse_contiguous h Reserve t ps p
       = Inr (ps, p\<lparr>reserveSize := reserveSize p + length ps * sizeof t\<rparr>)"
  by (simp add: parse_args_Reserve parse_Reserve)

text \<open>
  Claim C3, at its failing input: two writes of a 32-bit integer on one instance. The
  second Reserve pass adds 4 to \<^verbatim>\<open>reserveSize\<close>, which still holds the 4 of the first
  write, so \<^verbatim>\<open>bytes.resize(bytes.size() + reserveSize)\<close> grows the buffer by 8 while the
  Write pass fills 4 bytes: the buffer ends 12 bytes long with the write cursor at 8.
\<close>

theorem second_write_grows_by_stale_reservation:
  "Pak_write h [VPrim (Int32 1)] Pak
     = Inr \<lparr>bytes = [1, 0, 0, 0], reserveSize = 4, writePosition = 4, readPosition = 0\<rparr>
   \<and> Pak_write h [VPrim (Int32 2)]
         \<lparr>bytes = [1, 0, 0, 0], reserveSize = 4, writePosition = 4, readPosition = 0\<rparr>
     = Inr \<lparr>bytes = [1, 0, 0, 0, 2, 0, 0, 0, 0, 0, 0, 0], reserveSize = 8,
            writePosition = 8, readPosition = 0\<rparr>"
  by (simp add: Pak_write_result Pak_write_fresh wire_bytes_integral patch_def le_bytes_numeral
        replicate_numeral_Cons)

text \<open>
  Writing a dynamic sequence into a fresh buffer gives the 4 bytes of the element count,
  least significant first, followed by the encodings of the elements in iteration order,
  where the encoding of an element is what writing it alone gives, provided that every
  deque of arithmetic elements inside the sequence lies in one block. An empty sequence
  gives 4 zero bytes, and the sequence 7, 8, 9 of 32-bit integers in a \<^verbatim>\<open>std::vector\<close>
  or a \<^verbatim>\<open>std::list\<close> gives the count 3 and then the 12 bytes of the elements, on
  either host.
\<close>

lemma sequence_framing:
  "in_blocks (VSeq c t xs) \<Longrightarrow> in_blocks x \<Longrightarrow>
     Pak_write h [VSeq c t xs] Pak
     = Inr \<lparr>bytes = le_bytes 4 (of_nat (length xs) :: 32 word) @ concat (map (encode h) xs),
            reserveSize = 4 + sum_list (map wire_size xs),
            writePosition = 4 + sum_list (map wire_size xs), readPosition = 0\<rparr>
   \<and> Pak_write h [x] Pak
     = Inr \<lparr>bytes = encode h x, reserveSize = wire_size x, writePosition = wire_size x,
            readPosition = 0\<rparr>
   \<and> Pak_write h [VSeq c t []] Pak
     = Inr \<lparr>bytes = [0, 0, 0, 0], reserveSize = 4, writePosition = 4, readPosition = 0\<rparr>
   \<and> Pak_write h [VSeq RandomAccess (TPrim TInt32)
                     [VPrim (Int32 7), VPrim (Int32 8), VPrim (Int32 9)]] Pak
     = Inr \<lparr>bytes = [3, 0, 0, 0, 7, 0, 0, 0, 8, 0, 0, 0, 9, 0, 0, 0], reserveSize = 16,
            writePosition = 16, readPosition = 0\<rparr>
   \<and> Pak_write h [VSeq Bidirectional (TPrim TInt32)
                     [VPrim (Int32 7), VPrim (Int32 8), VPrim (Int32 9)]] Pak
     = Inr \<lparr>bytes = [3, 0, 0, 0, 7, 0, 0, 0, 8, 0, 0, 0, 9, 0, 0, 0], reserveSize = 16,
            writePosition = 16, readPosition = 0\<rparr>"
  by (simp add: Pak_write_fresh wire_bytes_integral le_bytes_numeral in_block_0)

text \<open>
  Claim C6, at its failing input: the \<^verbatim>\<open>std::deque<std::int32_t>\<close> built by
  \<^verbatim>\<open>push_back(2); push_front(1)\<close>, which holds 1, 2 with the two elements in
  different blocks. \<^verbatim>\<open>enable_if_contiguous_range\<close> admits the iterators of the deque, so
  the Write phase copies 8 bytes from the address of the first element, past the end of
  its block: the write is undefined, and the second element does not reach the wire.
  The claim asks for the count 2 followed by the encodings of 1 and 2, which is what the
  same elements give from a \<^verbatim>\<open>std::vector\<close> or a \<^verbatim>\<open>std::list\<close>.
\<close>

theorem deque_written_past_its_block:
  "contiguous_range (Segmented 1) (TPrim TInt32) [VPrim (Int32 1), VPrim (Int32 2)]
     = Some (TInt32, [Int32 1, Int32 2])
   \<and> Pak_write h [VSeq (Segmented 1) (TPrim TInt32) [VPrim (Int32 1), VPrim (Int32 2)]] Pak
     = Inl BlockOverrun
   \<and> encode h (VSeq (Segmented 1) (TPrim TInt32) [VPrim (Int32 1), VPrim (Int32 2)])
     = [2, 0, 0, 0, 1, 0, 0, 0, 2, 0, 0, 0]
   \<and> Pak_write h [VSeq RandomAccess (TPrim TInt32) [VPrim (Int32 1), VPrim (Int32 2)]] Pak
     = Inr \<lparr>bytes = [2, 0, 0, 0, 1, 0, 0, 0, 2, 0, 0, 0], reserveSize = 12,
            writePosition = 12, readPosition = 0\<rparr>
   \<and> Pak_write h [VSeq Bidirectional (TPrim TInt32) [VPrim (Int32 1), VPrim (Int32 2)]] Pak
     = Inr \<lparr>bytes = [2, 0, 0, 0, 1, 0, 0, 0, 2, 0, 0, 0], reserveSize = 12,
            writePosition = 12, readPosition = 0\<rparr>"
proof -
  let ?d = "VSeq (Segmented 1) (TPrim TInt32) [VPrim (Int32 1), VPrim (Int32 2)]"
  let ?P = "\<lparr>bytes = replicate 12 0, reserveSize = 12, writePosition = 0, readPosition = 0\<rparr>"
  have "put (le_bytes 4 (2 :: 32 word)) ?P
      = Inr \<lparr>bytes = [2, 0, 0, 0] @ replicate 8 0, reserveSize = 12, writePosition = 4,
             readPosition = 0\<rparr>"
    by (simp add: put_def store_def patch_def le_bytes_numeral replicate_numeral_Cons)
  then have count: "parse_prim h Write (Int32 2) ?P
      = Inr (Int32 2, \<lparr>bytes = [2, 0, 0, 0] @ replicate 8 0, reserveSize = 12,
                        writePosition = 4, readPosition = 0\<rparr>)"
    using wire_bytes_integral[of "Int32 2" h]
    by (simp add: parse_prim_Write del: parse_prim.simps)
  have w: "parse_args h Write [?d] ?P = Inl BlockOverrun"
    by (simp add: count parse_range.simps del: parse_prim.simps)
  have r: "parse_args h Reserve [?d] Pak
      = Inr ([?d], \<lparr>bytes = [], reserveSize = 12, writePosition = 0, readPosition = 0\<rparr>)"
    by (simp add: parse_args_Reserve Pak_def del: parse_args.simps)
  have "Pak_write h [?d] Pak = Inl BlockOverrun"
    unfolding Pak_write_def r using w by (simp del: parse_args.simps)
  then show ?thesis
    by (simp add: Pak_write_fresh wire_bytes_integral le_bytes_numeral)
qed

lemma holds_at_bounds:
  assumes "holds_at pos bs buf" "bs \<noteq> []"
  shows "pos + length bs \<le> length buf"
proof -
  have "length (take (length bs) (drop pos buf)) = length bs"
    using assms(1) by (simp add: holds_at_def)
  then show ?thesis
    using assms(2) by (cases "length buf \<le> pos") auto
qed

lemma holds_at_load:
  "holds_at pos bs buf \<Longrightarrow> load pos (length bs) buf = Inr bs"
  using holds_at_bounds[of pos bs buf] by (auto simp: load_def holds_at_def)


lemma holds_at_self: "holds_at 0 bs bs"
  by (simp add: holds_at_def)

lemma parse_prim_Read:
  assumes "holds_at (readPosition p) (wire_bytes h x) (bytes p)" "pty_of d = pty_of x"
  shows "parse_prim h Read d p
           = Inr (x, p\<lparr>readPosition := readPosition p + sizeof (pty_of x)\<rparr>)"
  using holds_at_load[OF assms(1)] assms(2)
  by (simp add: length_wire_bytes read_wire_bytes)

lemma word32_of_nat_mod: "(of_nat (n mod 2 ^ 32) :: 32 word) = of_nat n"
  by (simp add: word_of_nat_eq_iff take_bit_eq_mod)

lemma unat_word32_of_nat: "unat (of_nat n :: 32 word) = n mod 2 ^ 32"
  by (simp add: unat_of_nat)

lemma concat_replicate_single: "concat (replicate n [x]) = replicate n x"
  by (induction n) auto

text \<open>
  Claim C10. The element count that the container overload passes to the Reserve and
  Write passes is the container's size cast to \<^verbatim>\<open>std::uint32_t\<close>: the size modulo
  \<open>2^32\<close>, for every sequence and every map. The wire holds the 4 bytes of that
  truncated count, and 4 bytes are reserved for it. The elements that follow, and the
  bytes reserved for them, are those of the whole container. A string of \<open>2^32 + 3\<close>
  characters is written with the count 3. (What \<^verbatim>\<open>write\<close> leaves in the buffer is
  stated for the values that it writes: every deque in one block, every map key
  arithmetic or user-defined.)
\<close>

theorem container_count_truncated:
  "(writable (VSeq c t xs) \<longrightarrow>
      Pak_write h [VSeq c t xs] Pak
      = Inr \<lparr>bytes = le_bytes 4 (of_nat (length xs mod 2 ^ 32) :: 32 word)
                       @ concat (map (encode h) xs),
             reserveSize = 4 + sum_list (map wire_size xs),
             writePosition = 4 + sum_list (map wire_size xs), readPosition = 0\<rparr>)
   \<and> (writable (VMap ord k v es) \<longrightarrow>
      Pak_write h [VMap ord k v es] Pak
      = Inr \<lparr>bytes = le_bytes 4 (of_nat (length es mod 2 ^ 32) :: 32 word)
                       @ concat (map (encode h) es),
             reserveSize = 4 + sum_list (map wire_size es),
             writePosition = 4 + sum_list (map wire_size es), readPosition = 0\<rparr>)
   \<and> unat (of_nat (length xs) :: 32 word) = length xs mod 2 ^ 32
   \<and> parse h Reserve (VSeq c t xs) p
     = Inr (VSeq c t xs, p\<lparr>reserveSize := reserveSize p + (4 + sum_list (map wire_size xs))\<rparr>)
   \<and> parse h Reserve (VMap ord k v es) p
     = Inr (VMap ord k v es, p\<lparr>reserveSize := reserveSize p + (4 + sum_list (map wire_size es))\<rparr>)
   \<and> parse h Write (VSeq c t xs) p
     = (case parse_prim h Write (Int32 (of_nat (length xs mod 2 ^ 32))) p of
          Inl e \<Rightarrow> Inl e
        | Inr (n, p1) \<Rightarrow>
            (case parse_range h Write c t xs p1 of
               Inl e \<Rightarrow> Inl e
             | Inr (xs', p2) \<Rightarrow> Inr (VSeq c t xs', p2)))
   \<and> parse h Write (VMap ord k v es) p
     = (case parse_prim h Write (Int32 (of_nat (length es mod 2 ^ 32))) p of
          Inl e \<Rightarrow> Inl e
        | Inr (n, p1) \<Rightarrow>
            (case parse_range h Write Bidirectional (TPair k v) es p1 of
               Inl e \<Rightarrow> Inl e
             | Inr (es', p2) \<Rightarrow> Inr (VMap ord k v es', p2)))
   \<and> Pak_write h [huge_string] Pak
     = Inr \<lparr>bytes = [3, 0, 0, 0] @ replicate (2 ^ 32 + 3) 0, reserveSize = 2 ^ 32 + 7,
            writePosition = 2 ^ 32 + 7, readPosition = 0\<rparr>"
proof -
  have huge: "Pak_write h [huge_string] Pak
     = Inr \<lparr>bytes = [3, 0, 0, 0] @ replicate (2 ^ 32 + 3) 0, reserveSize = 2 ^ 32 + 7,
            writePosition = 2 ^ 32 + 7, readPosition = 0\<rparr>"
    by (simp add: Pak_write_fresh huge_string_def wire_bytes_integral le_bytes_numeral
          concat_replicate_single sum_list_replicate comp_def list_all_replicate)
  have m: "(of_nat (n mod 2 ^ 32) :: 32 word) = of_nat n" for n
    by (rule word32_of_nat_mod)
  have s: "writable (VSeq c t xs) \<longrightarrow>
      Pak_write h [VSeq c t xs] Pak
      = Inr \<lparr>bytes = le_bytes 4 (of_nat (length xs mod 2 ^ 32) :: 32 word)
                       @ concat (map (encode h) xs),
             reserveSize = 4 + sum_list (map wire_size xs),
             writePosition = 4 + sum_list (map wire_size xs), readPosition = 0\<rparr>"
    unfolding m by (simp add: writable_def Pak_write_fresh)
  have e: "writable (VMap ord k v es) \<longrightarrow>
      Pak_write h [VMap ord k v es] Pak
      = Inr \<lparr>bytes = le_bytes 4 (of_nat (length es mod 2 ^ 32) :: 32 word)
                       @ concat (map (encode h) es),
             reserveSize = 4 + sum_list (map wire_size es),
             writePosition = 4 + sum_list (map wire_size es), readPosition = 0\<rparr>"
    unfolding m by (simp add: writable_def Pak_write_fresh)
  have ws: "parse h Write (VSeq c t xs) p
     = (case parse_prim h Write (Int32 (of_nat (length xs mod 2 ^ 32))) p of
          Inl e \<Rightarrow> Inl e
        | Inr (n, p1) \<Rightarrow>
            (case parse_range h Write c t xs p1 of
               Inl e \<Rightarrow> Inl e
             | Inr (xs', p2) \<Rightarrow> Inr (VSeq c t xs', p2)))"
    unfolding m by (simp del: parse_prim.simps)
  have we: "parse h Write (VMap ord k v es) p
     = (case parse_prim h Write (Int32 (of_nat (length es mod 2 ^ 32))) p of
          Inl e \<Rightarrow> Inl e
        | Inr (n, p1) \<Rightarrow>
            (case parse_range h Write Bidirectional (TPair k v) es p1 of
               Inl e \<Rightarrow> Inl e
             | Inr (es', p2) \<Rightarrow> Inr (VMap ord k v es', p2)))"
    unfolding m by (simp del: parse_prim.simps)
  have r: "parse h Reserve v' p = Inr (v', p\<lparr>reserveSize := reserveSize p + wire_size v'\<rparr>)"
    for v'
    by (rule parse_Reserve)
  show ?thesis
    using huge s e ws we r[of "VSeq c t xs"] r[of "VMap ord k v es"]
      unat_word32_of_nat[of "length xs"]
    by (simp only: wire_size.simps simp_thms)
qed

theorem container_count_truncated_witness:
  "Pak_write BigEndian [VSeq (Segmented 2) (TPrim TInt16) [VPrim (Int16 5)]] Pak
     = Inr \<lparr>bytes = [1, 0, 0, 0, 5, 0], reserveSize = 6, writePosition = 6, readPosition = 0\<rparr>
   \<and> Pak_write BigEndian [map_1a] Pak
     = Inr \<lparr>bytes = [1, 0, 0, 0, 1, 0, 0, 0, 1, 0, 0, 0, 97], reserveSize = 13,
            writePosition = 13, readPosition = 0\<rparr>"
  using container_count_truncated[where c = "Segmented 2" and t = "TPrim TInt16"
      and xs = "[VPrim (Int16 5)]" and h = BigEndian and ord = SignedLess
      and k = "TPrim TInt32" and v = "TSeq RandomAccess (TPrim TInt8)"
      and es = "[VPair (VPrim (Int32 1)) (VSeq RandomAccess (TPrim TInt8) [VPrim (Int8 97)])]"]
  by (simp add: writable_def map_1a_def wire_bytes_integral le_bytes_numeral)

text \<open>
  Claim C2, as stated, fails for floating-point primitives: \<^verbatim>\<open>shouldByteSwap\<close> is false
  for every non-integral type, so on a big-endian host the \<^verbatim>\<open>float\<close> 1.0 (bit pattern
  \<open>0x3F800000\<close>) is not byte-reversed and goes to the wire in host order, most
  significant byte first.
\<close>

theorem float_written_in_host_order:
  "Pak_write BigEndian [VPrim (Float32 0x3F800000)] Pak
     = Inr \<lparr>bytes = [0x3F, 0x80, 0, 0], reserveSize = 4, writePosition = 4, readPosition = 0\<rparr>
   \<and> value_bytes (Float32 0x3F800000) = [0, 0, 0x80, 0x3F]
   \<and> copyPrimitive BigEndian (Float32 0x3F800000) = Float32 0x3F800000"
  by (simp add: Pak_write_fresh wire_bytes_not_integral object_bytes_def le_bytes_numeral
        copyPrimitive_def shouldByteSwap_def isBigEndian_iff)

text \<open>
  Claim C2, amended. Writing a primitive of width \<open>N\<close> stores exactly \<open>N\<close> bytes. For
  an integral primitive they are the bytes of the value least significant first, on
  either host, and reading them back on either host gives the value; on a big-endian host
  a multi-byte integral primitive is byte-swapped by \<^verbatim>\<open>copyPrimitive\<close> in both
  directions. A floating-point primitive is never swapped: it is stored as the bytes of
  the object in host order.
\<close>

theorem primitive_wire_format:
  "Pak_write h [VPrim x] Pak
     = Inr \<lparr>bytes = (if is_integral (pty_of x) then value_bytes x else object_bytes h x),
            reserveSize = sizeof (pty_of x), writePosition = sizeof (pty_of x),
            readPosition = 0\<rparr>
   \<and> length (value_bytes x) = sizeof (pty_of x)
   \<and> length (object_bytes h x) = sizeof (pty_of x)
   \<and> copyPrimitive BigEndian x
       = (if 1 < sizeof (pty_of x) \<and> is_integral (pty_of x) then byteSwap x else x)
   \<and> copyPrimitive LittleEndian x = x
   \<and> (is_integral (pty_of x) \<longrightarrow> pty_of d = pty_of x \<longrightarrow>
        parse_prim h Read d
          \<lparr>bytes = value_bytes x, reserveSize = r, writePosition = w, readPosition = 0\<rparr>
        = Inr (x, \<lparr>bytes = value_bytes x, reserveSize = r, writePosition = w,
                   readPosition = sizeof (pty_of x)\<rparr>))"
proof -
  have "parse_prim h Read d
          \<lparr>bytes = value_bytes x, reserveSize = r, writePosition = w, readPosition = 0\<rparr>
        = Inr (x, \<lparr>bytes = value_bytes x, reserveSize = r, writePosition = w,
                   readPosition = sizeof (pty_of x)\<rparr>)"
    if "is_integral (pty_of x)" "pty_of d = pty_of x"
    using parse_prim_Read[of "\<lparr>bytes = value_bytes x, reserveSize = r, writePosition = w,
        readPosition = 0\<rparr>" h x d] that
    by (simp add: wire_bytes_integral holds_at_self)
  then show ?thesis
    by (simp add: Pak_write_fresh wire_bytes_integral wire_bytes_not_integral
          length_value_bytes length_object_bytes copyPrimitive_def shouldByteSwap_def isBigEndian_iff)
qed

theorem primitive_wire_format_witness:
  "Pak_write BigEndian [VPrim (Int32 0x01020304)] Pak
     = Inr \<lparr>bytes = [4, 3, 2, 1], reserveSize = 4, writePosition = 4, readPosition = 0\<rparr>
   \<and> value_bytes (Int32 0x01020304) = [4, 3, 2, 1]
   \<and> parse_prim BigEndian Read (Int32 0)
        \<lparr>bytes = value_bytes (Int32 0x01020304), reserveSize = 4, writePosition = 4,
         readPosition = 0\<rparr>
     = Inr (Int32 0x01020304,
            \<lparr>bytes = value_bytes (Int32 0x01020304), reserveSize = 4, writePosition = 4,
             readPosition = 4\<rparr>)"
  using primitive_wire_format[of BigEndian "Int32 0x01020304" "Int32 0" 4 4]
  by (simp add: le_bytes_numeral)

section \<open>The contiguous range optimization is not observable\<close>

lemma load_length: "load pos n buf = Inr a \<Longrightarrow> length a = n"
  by (auto simp: load_def split: if_splits)

lemma load_append:
  "load pos (m + k) buf
     = (case load pos m buf of
          Inl e \<Rightarrow> Inl e
        | Inr a \<Rightarrow> (case load (pos + m) k buf of Inl e \<Rightarrow> Inl e | Inr r \<Rightarrow> Inr (a @ r)))"
proof -
  have "take (m + k) (drop pos buf) = take m (drop pos buf) @ take k (drop (pos + m) buf)"
    by (subst take_add) (simp add: add.commute)
  then show ?thesis
    by (auto simp: load_def)
qed

lemma objects_of_bytes_Nil: "objects_of_bytes h t [] = []"
  by (subst objects_of_bytes.simps) simp

lemma objects_of_bytes_append:
  "length a = sizeof t \<Longrightarrow>
   objects_of_bytes h t (a @ rest) = object_of_bytes h t a # objects_of_bytes h t rest"
  using sizeof_pos[of t] by (subst objects_of_bytes.simps) auto

lemma copyPrimitiveArray_alt:
  "copyPrimitiveArray h t bs = (if shouldByteSwap h t then byteSwap_elements h t bs else bs)"
  by (cases "bs = []") (simp_all add: copyPrimitiveArray_def byteSwap_elements_Nil)

lemma read_chunk:
  assumes "length a = sizeof t"
  shows "objects_of_bytes h t (copyPrimitiveArray h t (a @ rest))
           = copyPrimitive h (object_of_bytes h t a)
             # objects_of_bytes h t (copyPrimitiveArray h t rest)"
proof (cases "shouldByteSwap h t")
  case True
  let ?o = "object_of_bytes h t a"
  have t: "pty_of (byteSwap ?o) = t"
    by (simp add: pty_of_byteSwap pty_of_object_of_bytes)
  have "object_of_bytes h t (object_bytes h (byteSwap ?o)) = byteSwap ?o"
    using object_of_bytes_object_bytes[of h "byteSwap ?o"] by (simp add: t)
  moreover have "length (object_bytes h (byteSwap ?o)) = sizeof t"
    by (simp add: length_object_bytes t)
  ultimately show ?thesis
    using True assms
    by (simp add: copyPrimitiveArray_alt byteSwap_elements_append objects_of_bytes_append
          copyPrimitive_def pty_of_object_of_bytes)
next
  case False
  then show ?thesis
    using assms
    by (simp add: copyPrimitiveArray_alt objects_of_bytes_append copyPrimitive_def
          pty_of_object_of_bytes)
qed

lemma parse_args_Read_prims:
  assumes "list_all (\<lambda>x. pty_of x = t) ds"
  shows "parse_args h Read (map VPrim ds) p
           = (case parse_contiguous h Read t ds p of
                Inl e \<Rightarrow> Inl e | Inr (ps', p') \<Rightarrow> Inr (map VPrim ps', p'))"
  using assms
proof (induction ds arbitrary: p)
  case Nil
  show ?case
    by (simp add: load_def copyPrimitiveArray_def objects_of_bytes_Nil)
next
  case (Cons d ds)
  then have d: "pty_of d = t" and ds: "list_all (\<lambda>x. pty_of x = t) ds"
    by simp_all
  show ?case
  proof (cases "load (readPosition p) (sizeof t) (bytes p)")
    case (Inl e)
    then show ?thesis
      by (simp add: d load_append)
  next
    case (Inr a)
    have la: "length a = sizeof t"
      using Inr by (rule load_length)
    show ?thesis
      using Inr
      by (simp add: d Cons.IH[OF ds] load_append read_chunk[OF la] add.assoc
            split: sum.splits)
  qed
qed

lemma parse_contiguous_eq_parse_args:
  assumes "list_all (\<lambda>x. pty_of x = t) xs"
  shows "(case parse_contiguous h op t xs p of
            Inl e \<Rightarrow> Inl e | Inr (ys, p') \<Rightarrow> Inr (map VPrim ys, p'))
         = parse_args h op (map VPrim xs) p"
proof (cases op)
  case Reserve
  then show ?thesis
    using assms by (simp add: parse_args_Reserve sum_wire_size_prims)
next
  case Write
  then show ?thesis
    using assms
    by (simp add: parse_args_Write in_blocks_prims parse_contiguous_Write comp_def
          del: parse_contiguous.simps split: sum.splits)
next
  case Read
  then show ?thesis
    using assms by (simp add: parse_args_Read_prims del: parse_contiguous.simps)
qed

lemma parse_range_eq_parse_args:
  assumes "in_block c t (length xs)"
  shows "parse_range h op c t xs p = parse_args h op xs p"
proof (cases "contiguous_range c t xs")
  case None
  then show ?thesis by (simp add: parse_range.simps)
next
  case (Some a)
  then obtain pt ps where a: "a = (pt, ps)" by (cases a)
  from contiguous_range_Some[OF Some[unfolded a]]
  have c: "t = TPrim pt" "xs = map VPrim ps" "list_all (\<lambda>x. pty_of x = pt) ps"
    by simp_all
  have "\<not> block_overrun c op (length ps)"
    using assms c(1,2) by (simp add: in_block_no_overrun)
  with Some a c show ?thesis
    by (simp add: parse_range.simps parse_contiguous_eq_parse_args del: parse_contiguous.simps)
qed

text \<open>
  Claim C4. On a range of primitives of one arithmetic type, the contiguous overloads
  (\<open>parse_contiguous\<close>: one bulk copy, then one pass of swaps) give in every phase, on
  either host and from every state of the buffer exactly what the element-by-element
  iterator-pair loop (\<open>parse_args\<close>) gives: the same buffer and cursors on Write, the same
  destination values on Read, the same reservation, and the same failure when the buffer
  is too short. Such a range takes the contiguous overload when its iterators are random
  access, and the result is the one it gets through any other iterator.
\<close>

theorem fast_path_equivalence:
  "list_all (\<lambda>x. pty_of x = t) xs \<Longrightarrow>
     contiguous_range RandomAccess (TPrim t) (map VPrim xs) = Some (t, xs)
   \<and> (case parse_contiguous h op t xs p of
         Inl e \<Rightarrow> Inl e | Inr (ys, p') \<Rightarrow> Inr (map VPrim ys, p'))
       = parse_args h op (map VPrim xs) p
   \<and> parse_range h op RandomAccess (TPrim t) (map VPrim xs) p
       = parse_range h op Bidirectional (TPrim t) (map VPrim xs) p"
  by (simp add: the_prims_map parse_contiguous_eq_parse_args parse_range_eq_parse_args)

theorem fast_path_equivalence_witness:
  "list_all (\<lambda>x. pty_of x = TInt16) [Int16 0x0102, Int16 0x0304]
   \<and> parse_args BigEndian Write [VPrim (Int16 0x0102), VPrim (Int16 0x0304)]
        \<lparr>bytes = [0, 0, 0, 0], reserveSize = 4, writePosition = 0, readPosition = 0\<rparr>
     = Inr ([VPrim (Int16 0x0102), VPrim (Int16 0x0304)],
            \<lparr>bytes = [2, 1, 4, 3], reserveSize = 4, writePosition = 4, readPosition = 0\<rparr>)
   \<and> parse_contiguous BigEndian Write TInt16 [Int16 0x0102, Int16 0x0304]
        \<lparr>bytes = [0, 0, 0, 0], reserveSize = 4, writePosition = 0, readPosition = 0\<rparr>
     = Inr ([Int16 0x0102, Int16 0x0304],
            \<lparr>bytes = [2, 1, 4, 3], reserveSize = 4, writePosition = 4, readPosition = 0\<rparr>)"
proof -
  let ?P = "\<lparr>bytes = [0, 0, 0, 0], reserveSize = 4, writePosition = 0, readPosition = 0\<rparr>"
  let ?Q = "\<lparr>bytes = [2, 1, 4, 3], reserveSize = 4, writePosition = 4, readPosition = 0\<rparr>"
  have pre: "list_all (\<lambda>x. pty_of x = TInt16) [Int16 0x0102, Int16 0x0304]"
    by simp
  have gen: "parse_args BigEndian Write [VPrim (Int16 0x0102), VPrim (Int16 0x0304)] ?P
      = Inr ([VPrim (Int16 0x0102), VPrim (Int16 0x0304)], ?Q)"
    by (simp add: store_def copyPrimitive_def shouldByteSwap_def isBigEndian_iff object_bytes_def bswap16_def
          le_bytes_numeral)
  have "(case parse_contiguous BigEndian Write TInt16 [Int16 0x0102, Int16 0x0304] ?P of
           Inl e \<Rightarrow> Inl e | Inr (ys, p') \<Rightarrow> Inr (map VPrim ys, p'))
        = Inr ([VPrim (Int16 0x0102), VPrim (Int16 0x0304)], ?Q)"
    using fast_path_equivalence[OF pre, of BigEndian Write ?P, THEN conjunct2, THEN conjunct1]
      gen
    by (simp del: parse_contiguous.simps)
  then have "parse_contiguous BigEndian Write TInt16 [Int16 0x0102, Int16 0x0304] ?P
      = Inr ([Int16 0x0102, Int16 0x0304], ?Q)"
    by (auto simp del: parse_contiguous.simps split: sum.splits prod.splits)
  with pre gen show ?thesis
    by (simp del: parse_contiguous.simps)
qed

section \<open>Reading back\<close>

lemma ascending_Nil [simp]: "ascending ord []"
  by (simp add: ascending_def)

lemma ascending_single [simp]: "ascending ord [e]"
  by (simp add: ascending_def)





















lemma read_uint32_read_value:
  "read_uint32 h p
     = (case read_value h (TPrim TInt32) p of
          Inl e \<Rightarrow> Inl e
        | Inr (v, p') \<Rightarrow> Inr (case v of VPrim x \<Rightarrow> uint32_of x | _ \<Rightarrow> 0, p'))"
  by (simp add: read_uint32_def read_value_def split: sum.splits)









section \<open>Round trip\<close>








end
